theory Spec2Isabelle
  imports Complex_Main "HOL-Library.Sublist" "HOL-Library.Multiset"
begin

section \<open>Data models (data\_models.py)\<close>

text \<open>
  Python strings are modelled by \<open>string\<close>, one \<open>char\<close> per code point, so \<open>length\<close> is
  Python's \<open>len\<close> on text whose code points are below 256. A \<open>datetime\<close> is used by the
  code only through \<open>timestamp()\<close>, so the field \<open>date\<close> holds that POSIX timestamp; Python
  floats are modelled by the rationals they denote: the rounding of float arithmetic is not
  modelled, the overflow of a conversion to float is.
\<close>

datatype Category = BROTHEL | PROSTITUTION | PIMPING | TRAFFICKING | ENFORCEMENT | NOT_RELEVANT

datatype SubCategory = CLOSURE | OPENING | ARREST | FINE | SENTENCE | RESCUE | OPERATION | OTHER

record RawArticle =
  url :: string
  title :: string
  snippet :: string
  date :: rat
  source_name :: string

record ClassificationResult =
  relevant :: bool
  category :: Category
  sub_category :: "SubCategory option"
  confidence :: string

record ClassifiedArticle =
  article :: RawArticle
  classification :: ClassificationResult

record SourceReference =
  ref_source_name :: string
  ref_url :: string

record UnifiedItem =
  headline :: string
  summary :: string
  sources :: "SourceReference list"
  item_date :: rat
  item_category :: Category
  item_sub_category :: "SubCategory option"

text \<open>The exceptions that the modelled code can let escape.\<close>

datatype py_error =
    ValueError | AttributeError | UnicodeDecodeError | UnicodeEncodeError | OverflowError | OSError

section \<open>Deduplication (dedup/similarity.py)\<close>

subsection \<open>ArticleGroup\<close>

datatype ArticleGroup = ArticleGroup (articles: "ClassifiedArticle list")

definition new_group :: "ClassifiedArticle \<Rightarrow> ArticleGroup" where
  "new_group a = ArticleGroup [a]"

definition add :: "ArticleGroup \<Rightarrow> ClassifiedArticle \<Rightarrow> ArticleGroup" where
  "add g a = ArticleGroup (articles g @ [a])"

text \<open>
  The sort key of \<open>primary\<close>: \<open>(len(a.article.snippet), -a.article.date.timestamp())\<close>,
  and Python's order on such pairs: the first components decide unless they are equal.
\<close>

definition primary_key :: "ClassifiedArticle \<Rightarrow> nat \<times> rat" where
  "primary_key a = (length (snippet (article a)), - date (article a))"

fun key_gt :: "nat \<times> rat \<Rightarrow> nat \<times> rat \<Rightarrow> bool" where
  "key_gt (l1, n1) (l2, n2) = (if l1 \<noteq> l2 then l1 > l2 else n1 > n2)"

text \<open>
  Python's \<open>max(xs, key=k)\<close>: it raises \<open>ValueError\<close> on an empty sequence and otherwise
  walks the sequence, replacing the running maximum only by a strictly greater element, so
  the first of several maximal elements is the result.
\<close>

definition max_step :: "('a \<Rightarrow> nat \<times> rat) \<Rightarrow> 'a \<Rightarrow> 'a \<Rightarrow> 'a" where
  "max_step k m x = (if key_gt (k x) (k m) then x else m)"

fun py_max :: "('a \<Rightarrow> nat \<times> rat) \<Rightarrow> 'a list \<Rightarrow> py_error + 'a" where
  "py_max k [] = Inl ValueError"
| "py_max k (x # xs) = Inr (foldl (max_step k) x xs)"

definition primary :: "ArticleGroup \<Rightarrow> py_error + ClassifiedArticle" where
  "primary g = py_max primary_key (articles g)"

subsection \<open>Deduplicator\<close>

text \<open>
  The functions below take the similarity ratio of two strings as the parameter \<open>ratio\<close>;
  the code passes \<open>difflib.SequenceMatcher(None, a, b).ratio()\<close> of the Python standard
  library, which is \<open>SequenceMatcher_ratio\<close> further down. \<open>str.lower\<close> is modelled on the
  code points below 256.
\<close>

type_synonym ratio_fn = "string \<Rightarrow> string \<Rightarrow> rat"

record Deduplicator =
  threshold :: rat

definition create_deduplicator :: "rat option \<Rightarrow> Deduplicator" where
  "create_deduplicator thr = \<lparr>threshold = (case thr of None \<Rightarrow> 7 / 10 | Some t \<Rightarrow> t)\<rparr>"

definition lower_char :: "char \<Rightarrow> char" where
  "lower_char c =
     (let n = (of_char c :: nat)
      in if (65 \<le> n \<and> n \<le> 90) \<or> (192 \<le> n \<and> n \<le> 222 \<and> n \<noteq> 215)
         then char_of (n + 32) else c)"

definition lower :: "string \<Rightarrow> string" where
  "lower s = map lower_char s"

definition is_similar ::
  "ratio_fn \<Rightarrow> Deduplicator \<Rightarrow> ClassifiedArticle \<Rightarrow> ClassifiedArticle \<Rightarrow> bool" where
  "is_similar ratio dd article1 article2 =
     (let title1 = lower (title (article article1));
          title2 = lower (title (article article2));
          r = ratio title1 title2
      in r \<ge> threshold dd)"

text \<open>
  \<open>_find_matching_group\<close> returns a reference to the first group whose primary is similar;
  the model returns that group's index in the list, which is what the caller mutates.
\<close>

fun find_matching_group ::
  "ratio_fn \<Rightarrow> Deduplicator \<Rightarrow> ClassifiedArticle \<Rightarrow> ArticleGroup list \<Rightarrow> py_error + nat option" where
  "find_matching_group ratio dd a [] = Inr None"
| "find_matching_group ratio dd a (g # gs) =
     (case primary g of
        Inl e \<Rightarrow> Inl e
      | Inr p \<Rightarrow>
          if is_similar ratio dd a p then Inr (Some 0)
          else (case find_matching_group ratio dd a gs of
                  Inl e \<Rightarrow> Inl e
                | Inr None \<Rightarrow> Inr None
                | Inr (Some i) \<Rightarrow> Inr (Some (Suc i))))"

definition group_step ::
  "ratio_fn \<Rightarrow> Deduplicator \<Rightarrow> ArticleGroup list \<Rightarrow> ClassifiedArticle \<Rightarrow> py_error + ArticleGroup list" where
  "group_step ratio dd groups a =
     (case find_matching_group ratio dd a groups of
        Inl e \<Rightarrow> Inl e
      | Inr (Some i) \<Rightarrow> Inr (groups[i := add (groups ! i) a])
      | Inr None \<Rightarrow> Inr (groups @ [new_group a]))"

fun group_loop ::
  "ratio_fn \<Rightarrow> Deduplicator \<Rightarrow> ArticleGroup list \<Rightarrow> ClassifiedArticle list \<Rightarrow> py_error + ArticleGroup list" where
  "group_loop ratio dd groups [] = Inr groups"
| "group_loop ratio dd groups (a # as) =
     (case group_step ratio dd groups a of
        Inl e \<Rightarrow> Inl e
      | Inr groups' \<Rightarrow> group_loop ratio dd groups' as)"

definition group ::
  "ratio_fn \<Rightarrow> Deduplicator \<Rightarrow> ClassifiedArticle list \<Rightarrow> py_error + ArticleGroup list" where
  "group ratio dd arts = (if arts = [] then Inr [] else group_loop ratio dd [] arts)"

definition group_to_unified :: "ArticleGroup \<Rightarrow> py_error + UnifiedItem" where
  "group_to_unified g =
     (case primary g of
        Inl e \<Rightarrow> Inl e
      | Inr p \<Rightarrow>
          Inr \<lparr>headline = title (article p),
               summary = snippet (article p),
               sources = map (\<lambda>a. \<lparr>ref_source_name = source_name (article a),
                                     ref_url = url (article a)\<rparr>) (articles g),
               item_date = date (article p),
               item_category = category (classification p),
               item_sub_category = sub_category (classification p)\<rparr>)"

fun map_result :: "('a \<Rightarrow> py_error + 'b) \<Rightarrow> 'a list \<Rightarrow> py_error + 'b list" where
  "map_result f [] = Inr []"
| "map_result f (x # xs) =
     (case f x of
        Inl e \<Rightarrow> Inl e
      | Inr y \<Rightarrow> (case map_result f xs of Inl e \<Rightarrow> Inl e | Inr ys \<Rightarrow> Inr (y # ys)))"

definition deduplicate ::
  "ratio_fn \<Rightarrow> Deduplicator \<Rightarrow> ClassifiedArticle list \<Rightarrow> py_error + UnifiedItem list" where
  "deduplicate ratio dd arts =
     (case group ratio dd arts of
        Inl e \<Rightarrow> Inl e
      | Inr groups \<Rightarrow> map_result group_to_unified groups)"

subsection \<open>SequenceMatcher\<close>

text \<open>
  \<open>difflib.SequenceMatcher(None, a, b).ratio()\<close> is the Python standard library's
  (CPython, \<open>Lib/difflib.py\<close>); its algorithm is transcribed here for the call that
  \<open>_is_similar\<close> makes: no junk function, and the automatic junk heuristic left on.

  \<open>__chain_b\<close> indexes the second string: \<open>b2j\<close> gives the positions of a character in
  \<open>b\<close>, in increasing order; when \<open>b\<close> has 200 characters or more, a character that occurs
  more than \<open>len(b) // 100 + 1\<close> times is popular and loses its entry.
\<close>

definition popular :: "string \<Rightarrow> char \<Rightarrow> bool" where
  "popular b c = (200 \<le> length b \<and> length b div 100 + 1 < count_list b c)"

definition b2j :: "string \<Rightarrow> char \<Rightarrow> nat list" where
  "b2j b c = (if popular b c then [] else filter (\<lambda>j. b ! j = c) [0..<length b])"

text \<open>
  A match \<open>(i, j, k)\<close>: \<open>a[i:i+k] == b[j:j+k]\<close>. \<open>find_longest_match\<close> keeps, for the row
  \<open>i\<close> of \<open>a\<close>, the dictionary \<open>j2len\<close> of the lengths of the matches that end at \<open>a[i]\<close>
  and \<open>b[j]\<close>; \<open>j2len_get m j\<close> is \<open>j2len.get(j-1, 0)\<close>.
\<close>

type_synonym match = "nat \<times> nat \<times> nat"

definition j2len_get :: "(nat \<rightharpoonup> nat) \<Rightarrow> nat \<Rightarrow> nat" where
  "j2len_get j2len j =
     (if j = 0 then 0 else case j2len (j - 1) of None \<Rightarrow> 0 | Some k \<Rightarrow> k)"

text \<open>
  The inner loop \<open>for j in b2j.get(a[i], nothing)\<close>, with its \<open>continue\<close> below \<open>blo\<close> and
  its \<open>break\<close> at \<open>bhi\<close>, and the outer loop \<open>for i in range(alo, ahi)\<close>.
\<close>

fun inner_loop ::
  "(nat \<rightharpoonup> nat) \<Rightarrow> nat \<Rightarrow> nat \<Rightarrow> nat \<Rightarrow> nat list \<Rightarrow> (nat \<rightharpoonup> nat) \<Rightarrow> match \<Rightarrow> (nat \<rightharpoonup> nat) \<times> match" where
  "inner_loop j2len i blo bhi [] newj2len best = (newj2len, best)"
| "inner_loop j2len i blo bhi (j # js) newj2len best =
     (if j < blo then inner_loop j2len i blo bhi js newj2len best
      else if bhi \<le> j then (newj2len, best)
      else
        let k = j2len_get j2len j + 1
        in inner_loop j2len i blo bhi js (newj2len(j \<mapsto> k))
             (if snd (snd best) < k then (i + 1 - k, j + 1 - k, k) else best))"

fun outer_loop ::
  "string \<Rightarrow> string \<Rightarrow> nat \<Rightarrow> nat \<Rightarrow> nat list \<Rightarrow> (nat \<rightharpoonup> nat) \<Rightarrow> match \<Rightarrow> match" where
  "outer_loop a b blo bhi [] j2len best = best"
| "outer_loop a b blo bhi (i # rows) j2len best =
     (case inner_loop j2len i blo bhi (b2j b (a ! i)) Map.empty best of
        (newj2len, best') \<Rightarrow> outer_loop a b blo bhi rows newj2len best')"

text \<open>
  The two loops that extend the match by equal characters on each side. The two further
  loops of \<open>find_longest_match\<close> extend it by junk characters only; without a junk function
  the junk set is empty and they do nothing.
\<close>

function extend_left :: "string \<Rightarrow> string \<Rightarrow> nat \<Rightarrow> nat \<Rightarrow> match \<Rightarrow> match" where
  "extend_left a b alo blo (besti, bestj, bestsize) =
     (if alo < besti \<and> blo < bestj \<and> a ! (besti - 1) = b ! (bestj - 1)
      then extend_left a b alo blo (besti - 1, bestj - 1, bestsize + 1)
      else (besti, bestj, bestsize))"
  by pat_completeness auto
termination
  by (relation "measure (\<lambda>(a, b, alo, blo, besti, bestj, bestsize). besti)") auto

declare extend_left.simps [simp del]

function extend_right :: "string \<Rightarrow> string \<Rightarrow> nat \<Rightarrow> nat \<Rightarrow> match \<Rightarrow> match" where
  "extend_right a b ahi bhi (besti, bestj, bestsize) =
     (if besti + bestsize < ahi \<and> bestj + bestsize < bhi \<and>
         a ! (besti + bestsize) = b ! (bestj + bestsize)
      then extend_right a b ahi bhi (besti, bestj, bestsize + 1)
      else (besti, bestj, bestsize))"
  by pat_completeness auto
termination
  by (relation "measure (\<lambda>(a, b, ahi, bhi, besti, bestj, bestsize). ahi - (besti + bestsize))") auto

declare extend_right.simps [simp del]

definition find_longest_match :: "string \<Rightarrow> string \<Rightarrow> nat \<Rightarrow> nat \<Rightarrow> nat \<Rightarrow> nat \<Rightarrow> match" where
  "find_longest_match a b alo ahi blo bhi =
     extend_right a b ahi bhi
       (extend_left a b alo blo
          (outer_loop a b blo bhi [alo..<ahi] Map.empty (alo, blo, 0)))"

text \<open>
  The loop of \<open>get_matching_blocks\<close>: \<open>queue.pop()\<close> takes the last rectangle of the queue,
  a match found in it is recorded, and the parts of the rectangle before and after the
  match are queued. The result is \<open>None\<close> if the loop does not end.
\<close>

type_synonym rectangle = "nat \<times> nat \<times> nat \<times> nat"

partial_function (option) matching_loop ::
  "string \<Rightarrow> string \<Rightarrow> rectangle list \<Rightarrow> match list \<Rightarrow> match list option" where
  "matching_loop a b queue matching_blocks =
     (if queue = [] then Some matching_blocks
      else
        case last queue of (alo, ahi, blo, bhi) \<Rightarrow>
          (case find_longest_match a b alo ahi blo bhi of (i, j, k) \<Rightarrow>
             if k \<noteq> 0
             then
               let queue1 = butlast queue;
                   queue2 = (if alo < i \<and> blo < j then queue1 @ [(alo, i, blo, j)] else queue1);
                   queue3 = (if i + k < ahi \<and> j + k < bhi
                             then queue2 @ [(i + k, ahi, j + k, bhi)] else queue2)
               in matching_loop a b queue3 (matching_blocks @ [(i, j, k)])
             else matching_loop a b (butlast queue) matching_blocks))"

declare matching_loop.simps [code]

text \<open>
  \<open>ratio\<close> is \<open>2.0 * matches / (len(a) + len(b))\<close>, and 1.0 for two empty strings, where
  \<open>matches\<close> is the sum of the sizes of the matching blocks. \<open>get_matching_blocks\<close> then
  sorts the blocks, merges adjacent ones and appends a block of size 0, none of which
  changes the sum of the sizes.
\<close>

definition matches :: "match list \<Rightarrow> nat" where
  "matches blocks = sum_list (map (\<lambda>(i, j, k). k) blocks)"

definition calculate_ratio :: "nat \<Rightarrow> nat \<Rightarrow> rat" where
  "calculate_ratio m len = (if len \<noteq> 0 then 2 * of_nat m / of_nat len else 1)"

definition SequenceMatcher_ratio_opt :: "string \<Rightarrow> string \<Rightarrow> rat option" where
  "SequenceMatcher_ratio_opt a b =
     (case matching_loop a b [(0, length a, 0, length b)] [] of
        None \<Rightarrow> None
      | Some blocks \<Rightarrow> Some (calculate_ratio (matches blocks) (length a + length b)))"

definition SequenceMatcher_ratio :: "string \<Rightarrow> string \<Rightarrow> rat" where
  "SequenceMatcher_ratio a b = the (SequenceMatcher_ratio_opt a b)"

text \<open>
  Notions for the properties of the matcher: a match lies inside a rectangle; a rectangle
  is well formed; the number of characters that a rectangle can still match; and the
  measure by which the queue of \<open>get_matching_blocks\<close> decreases.
\<close>

fun match_in :: "rectangle \<Rightarrow> match \<Rightarrow> bool" where
  "match_in (alo, ahi, blo, bhi) (i, j, k) = (alo \<le> i \<and> i + k \<le> ahi \<and> blo \<le> j \<and> j + k \<le> bhi)"

fun rect_ok :: "rectangle \<Rightarrow> bool" where
  "rect_ok (alo, ahi, blo, bhi) = (alo \<le> ahi \<and> blo \<le> bhi)"

fun rect_cap :: "rectangle \<Rightarrow> nat" where
  "rect_cap (alo, ahi, blo, bhi) = min (ahi - alo) (bhi - blo)"

fun rect_weight :: "rectangle \<Rightarrow> nat" where
  "rect_weight (alo, ahi, blo, bhi) = 2 * (ahi - alo) + 1"

definition queue_measure :: "rectangle list \<Rightarrow> nat" where
  "queue_measure queue = sum_list (map rect_weight queue)"

text \<open>
  The number of consecutive characters of \<open>s\<close> ending at position \<open>i\<close> that are not
  popular in \<open>s\<close>.
\<close>

fun run_length :: "string \<Rightarrow> nat \<Rightarrow> nat" where
  "run_length s 0 = (if popular s (s ! 0) then 0 else 1)"
| "run_length s (Suc i) = (if popular s (s ! Suc i) then 0 else run_length s i + 1)"

text \<open>
  Invariants of \<open>find_longest_match\<close> on two equal strings: before the row \<open>i\<close>, the
  dictionary of the row before gives lengths bounded by the runs, and the run itself on
  the diagonal; and the best match so far lies on the diagonal and is at least as long as
  every run that ends before \<open>i\<close>.
\<close>

definition row_ready :: "string \<Rightarrow> nat \<Rightarrow> (nat \<rightharpoonup> nat) \<Rightarrow> bool" where
  "row_ready s i m =
     ((\<forall>j. j < length s \<and> s ! j = s ! i \<and> \<not> popular s (s ! i) \<longrightarrow>
           j2len_get m j + 1 \<le> run_length s i \<and> j2len_get m j + 1 \<le> run_length s j) \<and>
      (\<not> popular s (s ! i) \<longrightarrow> j2len_get m i + 1 = run_length s i))"

definition best_diagonal :: "string \<Rightarrow> nat \<Rightarrow> match \<Rightarrow> bool" where
  "best_diagonal s i best =
     (case best of (bi, bj, bs) \<Rightarrow>
        bi = bj \<and> bi + bs \<le> i \<and> (\<forall>i' < i. run_length s i' \<le> bs))"

text \<open>
  The comparison made by \<open>_find_matching_group\<close> on one group: the article is similar to
  the group's current primary.
\<close>

definition similar_to_primary ::
  "ratio_fn \<Rightarrow> Deduplicator \<Rightarrow> ClassifiedArticle \<Rightarrow> ArticleGroup \<Rightarrow> bool" where
  "similar_to_primary ratio dd a g =
     (case primary g of Inl e \<Rightarrow> False | Inr p \<Rightarrow> is_similar ratio dd a p)"

section \<open>Seen store (store/seen.py)\<close>

text \<open>
  The backing file, by what \<open>_load\<close> meets when it reads it: the path does not exist;
  \<open>open\<close> or the read raises \<open>OSError\<close>; the bytes are not text in the default encoding
  (\<open>UnicodeDecodeError\<close>, a \<open>ValueError\<close> that is not a \<open>JSONDecodeError\<close>); the text is
  not JSON (\<open>JSONDecodeError\<close>); the text is JSON whose top-level value is not an object;
  or it is an object, given by its member \<open>"urls"\<close> when it has one. A \<open>dict[str, str]\<close>
  is the list of its items in insertion order, with distinct keys.
\<close>

datatype backing_file =
    Missing
  | Unreadable
  | Undecodable
  | NotJson
  | JsonNonObject
  | JsonObject "(string \<times> string) list option"

record SeenStore =
  seen :: "(string \<times> string) list"

definition load :: "backing_file \<Rightarrow> py_error + SeenStore" where
  "load f =
     (case f of
        Missing \<Rightarrow> Inr \<lparr>seen = []\<rparr>
      | Unreadable \<Rightarrow> Inr \<lparr>seen = []\<rparr>
      | Undecodable \<Rightarrow> Inl UnicodeDecodeError
      | NotJson \<Rightarrow> Inr \<lparr>seen = []\<rparr>
      | JsonNonObject \<Rightarrow> Inl AttributeError
      | JsonObject None \<Rightarrow> Inr \<lparr>seen = []\<rparr>
      | JsonObject (Some urls) \<Rightarrow> Inr \<lparr>seen = urls\<rparr>)"

text \<open>
  What happens when \<open>save\<close> writes: the write succeeds; \<open>mkdir\<close> of the parent
  directory raises \<open>OSError\<close> (outside the \<open>try\<close>, so it escapes, the file untouched);
  \<open>open\<close> for writing raises \<open>OSError\<close> (caught and logged, the file untouched);
  \<open>json.dump\<close> raises \<open>OSError\<close> after \<open>open\<close> has truncated the file (caught and
  logged, a partial file is left); or \<open>json.dump\<close> raises an exception that is not an
  \<open>OSError\<close>, such as \<open>UnicodeEncodeError\<close> for a character that the encoding of the
  file cannot hold (it escapes, and a partial file is left).
\<close>

datatype write_outcome = WriteOk | MkdirFails | OpenFails | DumpFails | DumpRaises

definition save :: "write_outcome \<Rightarrow> SeenStore \<Rightarrow> backing_file \<Rightarrow> (py_error + unit) \<times> backing_file" where
  "save w st f =
     (case w of
        MkdirFails \<Rightarrow> (Inl OSError, f)
      | OpenFails \<Rightarrow> (Inr (), f)
      | DumpFails \<Rightarrow> (Inr (), NotJson)
      | DumpRaises \<Rightarrow> (Inl UnicodeEncodeError, NotJson)
      | WriteOk \<Rightarrow> (Inr (), JsonObject (Some (seen st))))"

definition is_seen :: "SeenStore \<Rightarrow> string \<Rightarrow> bool" where
  "is_seen st u = (u \<in> set (map fst (seen st)))"

text \<open>\<open>SeenStore.mark_seen\<close>; \<open>timestamp\<close> is \<open>datetime.now(UTC).isoformat()\<close>.\<close>

fun mark_seen_loop :: "string \<Rightarrow> SeenStore \<Rightarrow> string list \<Rightarrow> SeenStore" where
  "mark_seen_loop timestamp st [] = st"
| "mark_seen_loop timestamp st (u # urls) =
     mark_seen_loop timestamp
       (if \<not> is_seen st u then st\<lparr>seen := seen st @ [(u, timestamp)]\<rparr> else st) urls"

definition mark_seen :: "string \<Rightarrow> SeenStore \<Rightarrow> string list \<Rightarrow> SeenStore" where
  "mark_seen timestamp st urls = mark_seen_loop timestamp st urls"

definition filter_unseen :: "SeenStore \<Rightarrow> string list \<Rightarrow> string list" where
  "filter_unseen st urls = filter (\<lambda>u. \<not> is_seen st u) urls"

definition count :: "SeenStore \<Rightarrow> nat" where
  "count st = length (seen st)"

definition clear :: "SeenStore \<Rightarrow> SeenStore" where
  "clear st = st\<lparr>seen := []\<rparr>"

text \<open>
  \<open>datetime.fromisoformat(ts).timestamp()\<close> is the standard library's: the parameter
  \<open>fromiso\<close> gives the timestamp, or \<open>None\<close> where \<open>fromisoformat\<close> raises \<open>ValueError\<close>.
  \<open>now\<close> is \<open>datetime.now(UTC).timestamp()\<close>.
\<close>

type_synonym fromiso_fn = "string \<Rightarrow> rat option"

definition parse_timestamp :: "fromiso_fn \<Rightarrow> string \<Rightarrow> rat" where
  "parse_timestamp fromiso ts = (case fromiso ts of Some t \<Rightarrow> t | None \<Rightarrow> 0)"

text \<open>
  \<open>cutoff = now - (days * 86400)\<close> subtracts a Python int from a float, which converts
  the int to a float first: that raises \<open>OverflowError\<close> for an int that rounds to
  \<open>2 ** 1024\<close> or more, the least of which is \<open>2 ** 1024 - 2 ** 970\<close>.
\<close>

definition float_overflow :: int where
  "float_overflow = 2 ^ 1024 - 2 ^ 970"

definition prune_older_than ::
  "fromiso_fn \<Rightarrow> rat \<Rightarrow> SeenStore \<Rightarrow> int \<Rightarrow> py_error + int \<times> SeenStore" where
  "prune_older_than fromiso now st days =
     (if days \<le> 0 then Inr (0, st)
      else if float_overflow \<le> days * 86400 then Inl OverflowError
      else
        let cutoff = now - of_int (days * 86400);
            old_count = length (seen st);
            kept = filter (\<lambda>(u, ts). parse_timestamp fromiso ts > cutoff) (seen st);
            removed = int old_count - int (length kept)
        in Inr (removed, st\<lparr>seen := kept\<rparr>))"

section \<open>Classifier (classifier/relevance.py)\<close>

text \<open>
  The value that \<open>json.loads\<close> returns; an object is the list of its items. \<open>json.loads\<close>
  itself is the standard library's: the parameter \<open>json_loads\<close> gives the parsed value, or
  \<open>None\<close> where it raises \<open>JSONDecodeError\<close>.
\<close>

datatype json =
    JNull
  | JBool bool
  | JNum rat
  | JStr string
  | JArr "json list"
  | JObj "(string \<times> json) list"

type_synonym json_loads_fn = "string \<Rightarrow> json option"

text \<open>Python's truth value of a parsed JSON value.\<close>

fun truthy :: "json \<Rightarrow> bool" where
  "truthy JNull = False"
| "truthy (JBool b) = b"
| "truthy (JNum n) = (n \<noteq> 0)"
| "truthy (JStr s) = (s \<noteq> [])"
| "truthy (JArr xs) = (xs \<noteq> [])"
| "truthy (JObj kvs) = (kvs \<noteq> [])"

text \<open>\<open>Category(v)\<close> and \<open>SubCategory(v)\<close>: the member with that value, \<open>None\<close> for \<open>ValueError\<close>.\<close>

definition Category_of :: "json \<Rightarrow> Category option" where
  "Category_of v =
     (case v of
        JStr s \<Rightarrow>
          (if s = ''brothel'' then Some BROTHEL
           else if s = ''prostitution'' then Some PROSTITUTION
           else if s = ''pimping'' then Some PIMPING
           else if s = ''trafficking'' then Some TRAFFICKING
           else if s = ''enforcement'' then Some ENFORCEMENT
           else if s = ''not_relevant'' then Some NOT_RELEVANT
           else None)
      | _ \<Rightarrow> None)"

definition SubCategory_of :: "json \<Rightarrow> SubCategory option" where
  "SubCategory_of v =
     (case v of
        JStr s \<Rightarrow>
          (if s = ''closure'' then Some CLOSURE
           else if s = ''opening'' then Some OPENING
           else if s = ''arrest'' then Some ARREST
           else if s = ''fine'' then Some FINE
           else if s = ''sentence'' then Some SENTENCE
           else if s = ''rescue'' then Some RESCUE
           else if s = ''operation'' then Some OPERATION
           else if s = ''other'' then Some OTHER
           else None)
      | _ \<Rightarrow> None)"

text \<open>
  The sub-categories that \<open>CLASSIFICATION_PROMPT\<close> lists under each category (the comments
  of \<open>SubCategory\<close> give the same grouping).
\<close>

fun valid_sub_categories :: "Category \<Rightarrow> SubCategory list" where
  "valid_sub_categories BROTHEL = [CLOSURE, OPENING]"
| "valid_sub_categories PROSTITUTION = [ARREST, FINE]"
| "valid_sub_categories PIMPING = [ARREST, SENTENCE]"
| "valid_sub_categories TRAFFICKING = [ARREST, RESCUE, SENTENCE]"
| "valid_sub_categories ENFORCEMENT = [OPERATION, OTHER]"
| "valid_sub_categories NOT_RELEVANT = []"

text \<open>
  \<open>str.strip\<close>, \<open>str.startswith\<close>, and \<open>str.split\<close> and \<open>str.join\<close> with the newline
  character as separator.
\<close>

definition is_space :: "char \<Rightarrow> bool" where
  "is_space c = ((of_char c :: nat) \<in> {9, 10, 11, 12, 13, 28, 29, 30, 31, 32, 133, 160})"

definition strip :: "string \<Rightarrow> string" where
  "strip s = rev (dropWhile is_space (rev (dropWhile is_space s)))"

definition startswith :: "string \<Rightarrow> string \<Rightarrow> bool" where
  "startswith s p = (take (length p) s = p)"

fun split_nl :: "string \<Rightarrow> string list" where
  "split_nl [] = [[]]"
| "split_nl (c # cs) =
     (if c = CHR 0x0A then [] # split_nl cs
      else (case split_nl cs of [] \<Rightarrow> [[c]] | l # ls \<Rightarrow> (c # l) # ls))"

fun join_nl :: "string list \<Rightarrow> string" where
  "join_nl [] = []"
| "join_nl [l] = l"
| "join_nl (l # ls) = l @ [CHR 0x0A] @ join_nl ls"

definition dict_get :: "(string \<times> json) list \<Rightarrow> string \<Rightarrow> json \<Rightarrow> json" where
  "dict_get d k dflt = (case map_of d k of Some v \<Rightarrow> v | None \<Rightarrow> dflt)"

definition failed_classification :: ClassificationResult where
  "failed_classification =
     \<lparr>relevant = False, category = NOT_RELEVANT, sub_category = None, confidence = ''low''\<rparr>"

text \<open>
  The body of \<open>_parse_response\<close> after \<open>json.loads\<close>. \<open>data.get\<close> exists only on a dict;
  on any other parsed value it raises \<open>AttributeError\<close>, which the \<open>except\<close> clause
  (\<open>JSONDecodeError\<close>, \<open>KeyError\<close>) does not catch.
\<close>

definition parse_data :: "json \<Rightarrow> py_error + ClassificationResult" where
  "parse_data data =
     (case data of
        JObj d \<Rightarrow>
          (let category_str = dict_get d ''category'' (JStr ''not_relevant'');
               cat = (case Category_of category_str of Some c \<Rightarrow> c | None \<Rightarrow> NOT_RELEVANT);
               sub_category_str = map_of d ''sub_category'';
               sub = (case sub_category_str of
                        None \<Rightarrow> None
                      | Some v \<Rightarrow> if truthy v then SubCategory_of v else None);
               conf = dict_get d ''confidence'' (JStr ''medium'');
               conf' = (case conf of
                          JStr s \<Rightarrow> if s \<in> set [''high'', ''medium'', ''low''] then s else ''medium''
                        | _ \<Rightarrow> ''medium'')
           in Inr \<lparr>relevant = truthy (dict_get d ''relevant'' (JBool False)),
                   category = cat, sub_category = sub, confidence = conf'\<rparr>)
      | _ \<Rightarrow> Inl AttributeError)"

text \<open>
  The first lines of \<open>_parse_response\<close>: strip the text and, when it starts with a
  Markdown code fence, drop the first line and a closing fence line.
\<close>

definition unfence :: "string \<Rightarrow> string" where
  "unfence text0 =
     (let text1 = strip text0
      in if startswith text1 ''```''
         then (let lines = split_nl text1
               in join_nl (if last lines = ''```'' then butlast (tl lines) else tl lines))
         else text1)"

definition parse_response :: "json_loads_fn \<Rightarrow> string \<Rightarrow> py_error + ClassificationResult" where
  "parse_response json_loads text0 =
     (case json_loads (unfence text0) of
        None \<Rightarrow> Inr failed_classification
      | Some data \<Rightarrow> parse_data data)"

text \<open>
  What \<open>messages.create\<close> answers for an article: it raises \<open>anthropic.APIError\<close>, or its
  first content block is absent or not text, or it is the text given.
\<close>

datatype api_outcome = APIError | NoText | Text string

definition classify ::
  "(RawArticle \<Rightarrow> api_outcome) \<Rightarrow> json_loads_fn \<Rightarrow> RawArticle \<Rightarrow> py_error + ClassificationResult" where
  "classify messages_create json_loads a =
     (case messages_create a of
        APIError \<Rightarrow> Inr failed_classification
      | NoText \<Rightarrow> parse_response json_loads []
      | Text t \<Rightarrow> parse_response json_loads t)"

definition classify_batch ::
  "(RawArticle \<Rightarrow> api_outcome) \<Rightarrow> json_loads_fn \<Rightarrow> RawArticle list \<Rightarrow> py_error + ClassifiedArticle list" where
  "classify_batch messages_create json_loads arts =
     map_result (\<lambda>a. case classify messages_create json_loads a of
                        Inl e \<Rightarrow> Inl e
                      | Inr c \<Rightarrow> Inr \<lparr>article = a, classification = c\<rparr>) arts"

section \<open>Pipeline (pipeline.py)\<close>

datatype SourceType = RSS | SCRAPER

record SourceConfig =
  cfg_name :: string
  cfg_type :: SourceType
  cfg_url :: "string option"
  enabled :: bool

text \<open>
  \<open>Config\<close> (config.py), with the fields that the pipeline reads; \<open>anthropic_api_key\<close>
  is the property that reads the environment. The class declares no field
  \<open>max_articles\<close>, and a pydantic model raises \<open>AttributeError\<close> when an attribute that
  it does not declare is read: \<open>config_max_articles\<close> is the read \<open>config.max_articles\<close>
  of \<open>run_pipeline_async\<close>.
\<close>

record Config =
  anthropic_api_key :: "string option"
  config_keywords :: "string list"
  config_sources :: "SourceConfig list"
  similarity_threshold :: rat

definition config_max_articles :: "Config \<Rightarrow> py_error + int" where
  "config_max_articles config = Inl AttributeError"

datatype Source = RSSSource string string | MakoSource | MaarivSource

fun create_sources_loop :: "SourceConfig list \<Rightarrow> Source list" where
  "create_sources_loop [] = []"
| "create_sources_loop (c # cs) =
     (if \<not> enabled c then create_sources_loop cs
      else case cfg_type c of
             RSS \<Rightarrow>
               (case cfg_url c of
                  None \<Rightarrow> create_sources_loop cs
                | Some u \<Rightarrow>
                    if u \<noteq> [] then RSSSource (cfg_name c) u # create_sources_loop cs
                    else create_sources_loop cs)
           | SCRAPER \<Rightarrow>
               if cfg_name c = ''mako'' then MakoSource # create_sources_loop cs
               else if cfg_name c = ''maariv'' then MaarivSource # create_sources_loop cs
               else create_sources_loop cs)"

definition create_sources :: "Config \<Rightarrow> Source list" where
  "create_sources config = create_sources_loop (config_sources config)"

text \<open>
  Everything outside the repository that a run depends on: what each source's \<open>fetch\<close>
  does (it raises, or returns articles), what the classifier's API answers for an article,
  the standard library's \<open>json.loads\<close>, the clock, and what happens on the write of
  \<open>save\<close>.
\<close>

datatype fetch_outcome = FetchRaises | Fetched "RawArticle list"

record Env =
  env_fetch :: "Source \<Rightarrow> int \<Rightarrow> string list \<Rightarrow> fetch_outcome"
  env_messages_create :: "RawArticle \<Rightarrow> api_outcome"
  env_json_loads :: json_loads_fn
  env_now_iso :: string
  env_save_outcome :: write_outcome

fun fetch_all_sources :: "Env \<Rightarrow> Source list \<Rightarrow> int \<Rightarrow> string list \<Rightarrow> RawArticle list" where
  "fetch_all_sources env [] days kws = []"
| "fetch_all_sources env (s # ss) days kws =
     (case env_fetch env s days kws of
        FetchRaises \<Rightarrow> fetch_all_sources env ss days kws
      | Fetched arts \<Rightarrow> arts @ fetch_all_sources env ss days kws)"

definition filter_seen :: "RawArticle list \<Rightarrow> SeenStore \<Rightarrow> RawArticle list" where
  "filter_seen arts seen_store = filter (\<lambda>a. \<not> is_seen seen_store (url a)) arts"

definition classify_articles :: "Env \<Rightarrow> RawArticle list \<Rightarrow> py_error + ClassifiedArticle list" where
  "classify_articles env arts =
     (case classify_batch (env_messages_create env) (env_json_loads env) arts of
        Inl e \<Rightarrow> Inl e
      | Inr classified \<Rightarrow> Inr (filter (\<lambda>c. relevant (classification c)) classified))"

definition deduplicate_articles ::
  "Env \<Rightarrow> ClassifiedArticle list \<Rightarrow> Deduplicator \<Rightarrow> py_error + UnifiedItem list" where
  "deduplicate_articles env arts deduplicator = deduplicate SequenceMatcher_ratio deduplicator arts"

text \<open>
  The pipeline's \<open>mark_seen\<close>: collect the URL of every source of every item, mark them in
  the store, save. It returns the store and the backing file as they are afterwards.
\<close>

definition item_urls :: "UnifiedItem list \<Rightarrow> string list" where
  "item_urls items = concat (map (\<lambda>item. map ref_url (sources item)) items)"

definition pipeline_mark_seen ::
  "Env \<Rightarrow> UnifiedItem list \<Rightarrow> SeenStore \<Rightarrow> backing_file \<Rightarrow> (py_error + unit) \<times> SeenStore \<times> backing_file" where
  "pipeline_mark_seen env items seen_store f =
     (let urls = item_urls items;
          st = mark_seen (env_now_iso env) seen_store urls;
          (r, f') = save (env_save_outcome env) st f
      in (r, st, f'))"

text \<open>
  The result of a run: what \<open>run_pipeline_async\<close> returns or raises, the seen store it
  holds in memory at the end (\<open>None\<close> when the run ended before creating it), and the
  backing file at the end. After the seen-filter the run reads \<open>config.max_articles\<close> for
  the comparison with the number of unseen articles; the comparison itself only logs a
  warning.
\<close>

record RunResult =
  run_output :: "py_error + UnifiedItem list"
  store_after :: "SeenStore option"
  file_after :: backing_file

definition run_pipeline_async :: "Env \<Rightarrow> Config \<Rightarrow> int \<Rightarrow> backing_file \<Rightarrow> RunResult" where
  "run_pipeline_async env config days f =
     (if anthropic_api_key config = None \<or> anthropic_api_key config = Some []
      then \<lparr>run_output = Inr [], store_after = None, file_after = f\<rparr>
      else
        let srcs = create_sources config
        in if srcs = [] then \<lparr>run_output = Inr [], store_after = None, file_after = f\<rparr>
           else
             let deduplicator = create_deduplicator (Some (similarity_threshold config))
             in case load f of
                  Inl e \<Rightarrow> \<lparr>run_output = Inl e, store_after = None, file_after = f\<rparr>
                | Inr seen_store \<Rightarrow>
                    let all_articles = fetch_all_sources env srcs days (config_keywords config)
                    in if all_articles = []
                       then \<lparr>run_output = Inr [], store_after = Some seen_store, file_after = f\<rparr>
                       else
                         let unseen_articles = filter_seen all_articles seen_store
                         in if unseen_articles = []
                            then \<lparr>run_output = Inr [], store_after = Some seen_store, file_after = f\<rparr>
                            else
                              case config_max_articles config of
                                Inl e \<Rightarrow> \<lparr>run_output = Inl e, store_after = Some seen_store, file_after = f\<rparr>
                              | Inr limit \<Rightarrow>
                                  (case classify_articles env unseen_articles of
                                     Inl e \<Rightarrow> \<lparr>run_output = Inl e, store_after = Some seen_store, file_after = f\<rparr>
                                   | Inr relevant_articles \<Rightarrow>
                                       if relevant_articles = []
                                       then \<lparr>run_output = Inr [], store_after = Some seen_store, file_after = f\<rparr>
                                       else
                                         (case deduplicate_articles env relevant_articles deduplicator of
                                            Inl e \<Rightarrow> \<lparr>run_output = Inl e, store_after = Some seen_store, file_after = f\<rparr>
                                          | Inr unified_items \<Rightarrow>
                                              (case pipeline_mark_seen env unified_items seen_store f of
                                                 (Inl e, st, f') \<Rightarrow>
                                                   \<lparr>run_output = Inl e, store_after = Some st, file_after = f'\<rparr>
                                               | (Inr u, st, f') \<Rightarrow>
                                                   \<lparr>run_output = Inr unified_items, store_after = Some st, file_after = f'\<rparr>))))"

section \<open>Fixtures\<close>

text \<open>A classified article as the unit tests build it (\<open>make_article\<close>).\<close>

definition mk_article :: "string \<Rightarrow> string \<Rightarrow> string \<Rightarrow> rat \<Rightarrow> string \<Rightarrow> ClassifiedArticle" where
  "mk_article u t s d n =
     \<lparr>article = \<lparr>url = u, title = t, snippet = s, date = d, source_name = n\<rparr>,
      classification = \<lparr>relevant = True, category = BROTHEL, sub_category = None,
                        confidence = ''high''\<rparr>\<rparr>"

text \<open>
  Three members with excerpts of 5, 40 and 40 characters; the 40-character ones are dated
  2026-02-15 and 2026-02-14 (midnight UTC, as POSIX timestamps).
\<close>

definition ex_short :: ClassifiedArticle where
  "ex_short = mk_article ''https://example.com/1'' ''Short'' (replicate 5 CHR ''s'') 1771113600 ''a''"

definition ex_late :: ClassifiedArticle where
  "ex_late = mk_article ''https://example.com/2'' ''Late'' (replicate 40 CHR ''x'') 1771113600 ''b''"

definition ex_early :: ClassifiedArticle where
  "ex_early = mk_article ''https://example.com/3'' ''Early'' (replicate 40 CHR ''y'') 1771027200 ''c''"

text \<open>
  The invariant of the grouping pass after the prefix \<open>pre\<close> of the input: no group is
  empty, each group is a subsequence of \<open>pre\<close>, and the groups together hold exactly the
  articles of \<open>pre\<close>.
\<close>

definition grp_inv :: "ClassifiedArticle list \<Rightarrow> ArticleGroup list \<Rightarrow> bool" where
  "grp_inv pre gs =
     ((\<forall>g \<in> set gs. articles g \<noteq> [] \<and> subseq (articles g) pre) \<and>
      mset (concat (map articles gs)) = mset pre)"

text \<open>
  A stand-in for the parameter \<open>ratio\<close> in concrete instances of the grouping pass: 1 on
  equal strings and 0 otherwise.
\<close>

definition exact_ratio :: ratio_fn where
  "exact_ratio s t = (if s = t then 1 else 0)"

definition ex_copy :: ClassifiedArticle where
  "ex_copy = mk_article ''https://example.org/9'' ''LATE'' (replicate 7 CHR ''z'') 1771200000 ''d''"

text \<open>
  Articles for concrete instances of the similarity test: two titles whose lower-cased
  forms share the first seven of their ten characters, and the three headlines of the
  specification's end-to-end scenario.
\<close>

definition ex_upper :: ClassifiedArticle where
  "ex_upper = mk_article ''https://example.com/u'' ''ABCDEFGxyz'' ''upper'' 1771027200 ''a''"

definition ex_digits :: ClassifiedArticle where
  "ex_digits = mk_article ''https://example.com/d'' ''abcdefg123'' ''digits'' 1771027200 ''b''"

definition ex_raid_a :: ClassifiedArticle where
  "ex_raid_a =
     mk_article ''https://a.example/raid'' ''Police Raid Brothel in Tel Aviv''
       (replicate 300 CHR ''a'') 1771027200 ''A''"

definition ex_raid_b :: ClassifiedArticle where
  "ex_raid_b =
     mk_article ''https://b.example/raid'' ''Police Raid Brothel in Tel Aviv Area''
       (replicate 50 CHR ''b'') 1771027200 ''B''"

definition ex_court :: ClassifiedArticle where
  "ex_court =
     mk_article ''https://c.example/court'' ''Court Sentences Pimp to Prison''
       (replicate 80 CHR ''c'') 1771027200 ''C''"

text \<open>
  A clock and a ledger for concrete instances: now is 2026-02-10, and the entries were
  first seen 40 days, exactly 30 days and 10 days before; one entry has a timestamp that
  \<open>fromisoformat\<close> rejects. \<open>ex_fromiso\<close> stands for \<open>fromisoformat(ts).timestamp()\<close> on
  these strings.
\<close>

definition ex_now :: rat where
  "ex_now = 1770681600"

definition ex_fromiso :: fromiso_fn where
  "ex_fromiso ts =
     (if ts = ''2026-01-01T00:00:00+00:00'' then Some 1767225600
      else if ts = ''2026-01-11T00:00:00+00:00'' then Some 1768089600
      else if ts = ''2026-01-31T00:00:00+00:00'' then Some 1769817600
      else None)"

definition ex_store :: SeenStore where
  "ex_store =
     \<lparr>seen = [(''https://example.com/40'', ''2026-01-01T00:00:00+00:00''),
              (''https://example.com/30'', ''2026-01-11T00:00:00+00:00''),
              (''https://example.com/10'', ''2026-01-31T00:00:00+00:00''),
              (''https://example.com/bad'', ''not a timestamp'')]\<rparr>"

text \<open>The keys of the ledger, and the entries that a cutoff removes.\<close>

definition seen_urls :: "SeenStore \<Rightarrow> string set" where
  "seen_urls st = set (map fst (seen st))"

definition at_or_before :: "fromiso_fn \<Rightarrow> rat \<Rightarrow> string \<times> string \<Rightarrow> bool" where
  "at_or_before fromiso cutoff e = (parse_timestamp fromiso (snd e) \<le> cutoff)"

text \<open>
  The pruning as the specification words it, for comparison with \<open>prune_older_than\<close>: for
  every \<open>days\<close>, exactly the entries whose timestamp is older than \<open>now - days\<close> are
  removed, an unparsable timestamp counting as older than any cutoff.
\<close>

definition older_than :: "fromiso_fn \<Rightarrow> rat \<Rightarrow> string \<times> string \<Rightarrow> bool" where
  "older_than fromiso cutoff e = (case fromiso (snd e) of None \<Rightarrow> True | Some t \<Rightarrow> t < cutoff)"

definition prune_as_specified :: "fromiso_fn \<Rightarrow> rat \<Rightarrow> SeenStore \<Rightarrow> int \<Rightarrow> int \<times> SeenStore" where
  "prune_as_specified fromiso now st days =
     (let cutoff = now - of_int (days * 86400)
      in (int (length (filter (older_than fromiso cutoff) (seen st))),
          st\<lparr>seen := filter (\<lambda>e. \<not> older_than fromiso cutoff e) (seen st)\<rparr>))"

text \<open>
  Two classifier responses and a stand-in for \<open>json.loads\<close> on them: category
  \<open>brothel\<close> with the sub-category \<open>rescue\<close>, which the prompt lists under trafficking
  only, and category \<open>brothel\<close> with a sub-category that is no \<open>SubCategory\<close> value.
\<close>

definition ex_cross_text :: string where
  "ex_cross_text =
     ''{\"relevant\": true, \"category\": \"brothel\", \"sub_category\": \"rescue\", \"confidence\": \"high\"}''"

definition ex_cross_obj :: "(string \<times> json) list" where
  "ex_cross_obj =
     [(''relevant'', JBool True), (''category'', JStr ''brothel''),
      (''sub_category'', JStr ''rescue''), (''confidence'', JStr ''high'')]"

definition ex_unknown_text :: string where
  "ex_unknown_text =
     ''{\"relevant\": true, \"category\": \"brothel\", \"sub_category\": \"unknown\", \"confidence\": \"high\"}''"

definition ex_unknown_obj :: "(string \<times> json) list" where
  "ex_unknown_obj =
     [(''relevant'', JBool True), (''category'', JStr ''brothel''),
      (''sub_category'', JStr ''unknown''), (''confidence'', JStr ''high'')]"

definition ex_json_loads :: json_loads_fn where
  "ex_json_loads t =
     (if t = ex_cross_text then Some (JObj ex_cross_obj)
      else if t = ex_unknown_text then Some (JObj ex_unknown_obj)
      else None)"

text \<open>
  Names for the conditions that \<open>run_pipeline_async\<close> tests: the API key is present, and
  the articles that the enabled sources return.
\<close>

definition key_present :: "Config \<Rightarrow> bool" where
  "key_present config =
     (\<not> (anthropic_api_key config = None \<or> anthropic_api_key config = Some []))"

definition fetched :: "Env \<Rightarrow> Config \<Rightarrow> int \<Rightarrow> RawArticle list" where
  "fetched env config days =
     fetch_all_sources env (create_sources config) days (config_keywords config)"

text \<open>
  A configuration, three fetched articles and an environment for concrete runs: the first
  two articles carry the same headline up to case and are classified relevant, the third is
  answered by text that is not JSON and so is not relevant; the RSS source returns the
  three articles and the scraper raises.
\<close>

definition ex_raw1 :: RawArticle where
  "ex_raw1 =
     \<lparr>url = ''https://a.example/raid'', title = ''Police Raid Brothel in Tel Aviv'',
      snippet = replicate 300 CHR ''a'', date = 1771027200, source_name = ''A''\<rparr>"

definition ex_raw2 :: RawArticle where
  "ex_raw2 =
     \<lparr>url = ''https://b.example/raid'', title = ''POLICE RAID BROTHEL IN TEL AVIV'',
      snippet = replicate 50 CHR ''b'', date = 1771113600, source_name = ''B''\<rparr>"

definition ex_raw3 :: RawArticle where
  "ex_raw3 =
     \<lparr>url = ''https://c.example/weather'', title = ''Weather Tomorrow'',
      snippet = replicate 20 CHR ''c'', date = 1771113600, source_name = ''C''\<rparr>"

definition ex_fetch :: "Source \<Rightarrow> int \<Rightarrow> string list \<Rightarrow> fetch_outcome" where
  "ex_fetch s days kws =
     (case s of
        RSSSource n u \<Rightarrow> Fetched [ex_raw1, ex_raw2, ex_raw3]
      | MakoSource \<Rightarrow> FetchRaises
      | MaarivSource \<Rightarrow> Fetched [])"

definition ex_messages_create :: "RawArticle \<Rightarrow> api_outcome" where
  "ex_messages_create a =
     (if title a = ''Weather Tomorrow'' then Text ''This is not valid JSON'' else Text ex_cross_text)"

definition ex_env :: Env where
  "ex_env =
     \<lparr>env_fetch = ex_fetch, env_messages_create = ex_messages_create,
      env_json_loads = ex_json_loads,
      env_now_iso = ''2026-02-10T00:00:00+00:00'', env_save_outcome = WriteOk\<rparr>"

text \<open>The environment of a later run: same sources and classifier, another clock and disk.\<close>

definition ex_env_later :: Env where
  "ex_env_later =
     ex_env\<lparr>env_now_iso := ''2026-02-11T00:00:00+00:00'', env_save_outcome := OpenFails\<rparr>"

definition ex_env_no_fetch :: Env where
  "ex_env_no_fetch = ex_env\<lparr>env_fetch := (\<lambda>s days kws. FetchRaises)\<rparr>"

definition ex_env_api_down :: Env where
  "ex_env_api_down = ex_env\<lparr>env_messages_create := (\<lambda>a. APIError)\<rparr>"

definition ex_config :: Config where
  "ex_config =
     \<lparr>anthropic_api_key = Some ''sk-test'', config_keywords = [''brothel''],
      config_sources =
        [\<lparr>cfg_name = ''ynet'', cfg_type = RSS, cfg_url = Some ''https://ynet.co.il/feed.xml'',
          enabled = True\<rparr>,
         \<lparr>cfg_name = ''mako'', cfg_type = SCRAPER, cfg_url = None, enabled = True\<rparr>],
      similarity_threshold = 7 / 10\<rparr>"

definition ex_ledger_after :: "(string \<times> string) list" where
  "ex_ledger_after =
     [(''https://a.example/raid'', ''2026-02-10T00:00:00+00:00''),
      (''https://b.example/raid'', ''2026-02-10T00:00:00+00:00'')]"

definition ex_ledger_all :: "(string \<times> string) list" where
  "ex_ledger_all =
     ex_ledger_after @ [(''https://c.example/weather'', ''2026-02-10T00:00:00+00:00'')]"

section \<open>Properties of the matcher\<close>

subsection \<open>Matches lie within their rectangle; the loop ends\<close>

lemma inner_loop_bounds:
  assumes "\<forall>j k. m j = Some k \<longrightarrow> alo + k \<le> i \<and> blo + k \<le> Suc j"
    and "alo \<le> i" and "i < ahi"
    and "match_in (alo, ahi, blo, bhi) best"
    and "\<forall>j k. new j = Some k \<longrightarrow> alo + k \<le> Suc i \<and> blo + k \<le> Suc j"
  shows "match_in (alo, ahi, blo, bhi) (snd (inner_loop m i blo bhi js new best)) \<and>
         (\<forall>j k. fst (inner_loop m i blo bhi js new best) j = Some k \<longrightarrow>
                 alo + k \<le> Suc i \<and> blo + k \<le> Suc j)"
  using assms(4,5)
proof (induction js arbitrary: new best)
  case Nil
  then show ?case by simp
next
  case (Cons j js)
  show ?case
  proof (cases "j < blo")
    case True
    then show ?thesis using Cons.IH[OF Cons.prems] by simp
  next
    case nlt: False
    show ?thesis
    proof (cases "bhi \<le> j")
      case True
      then show ?thesis using nlt Cons.prems by simp
    next
      case False
      define k where "k = j2len_get m j + 1"
      have kb: "alo + k \<le> Suc i \<and> blo + k \<le> Suc j"
      proof (cases "j = 0")
        case True
        then show ?thesis using assms(2) nlt by (simp add: k_def j2len_get_def)
      next
        case j0: False
        show ?thesis
        proof (cases "m (j - 1)")
          case None
          then show ?thesis using assms(2) nlt j0 by (simp add: k_def j2len_get_def)
        next
          case (Some k')
          then have "alo + k' \<le> i \<and> blo + k' \<le> Suc (j - 1)" using assms(1) by blast
          then show ?thesis using Some j0 by (simp add: k_def j2len_get_def)
        qed
      qed
      let ?best' = "if snd (snd best) < k then (i + 1 - k, j + 1 - k, k) else best"
      have w: "match_in (alo, ahi, blo, bhi) ?best'"
        using kb Cons.prems(1) assms(3) False by auto
      have n: "\<forall>j' k'. (new(j \<mapsto> k)) j' = Some k' \<longrightarrow> alo + k' \<le> Suc i \<and> blo + k' \<le> Suc j'"
        using kb Cons.prems(2) by auto
      have eq: "inner_loop m i blo bhi (j # js) new best = inner_loop m i blo bhi js (new(j \<mapsto> k)) ?best'"
        using nlt False by (simp add: k_def Let_def)
      show ?thesis unfolding eq by (rule Cons.IH[OF w n])
    qed
  qed
qed

lemma outer_loop_bounds:
  assumes "\<forall>j k. m j = Some k \<longrightarrow> alo + k \<le> i0 \<and> blo + k \<le> Suc j"
    and "alo \<le> i0" and "match_in (alo, ahi, blo, bhi) best"
  shows "match_in (alo, ahi, blo, bhi) (outer_loop a b blo bhi [i0..<ahi] m best)"
  using assms
proof (induction "ahi - i0" arbitrary: i0 m best)
  case 0
  then show ?case by simp
next
  case (Suc d)
  then have lt: "i0 < ahi" by simp
  then have rows: "[i0..<ahi] = i0 # [Suc i0..<ahi]" by (simp add: upt_conv_Cons)
  obtain new best' where il: "inner_loop m i0 blo bhi (b2j b (a ! i0)) Map.empty best = (new, best')"
    by (cases "inner_loop m i0 blo bhi (b2j b (a ! i0)) Map.empty best") auto
  have "match_in (alo, ahi, blo, bhi) (snd (inner_loop m i0 blo bhi (b2j b (a ! i0)) Map.empty best)) \<and>
         (\<forall>j k. fst (inner_loop m i0 blo bhi (b2j b (a ! i0)) Map.empty best) j = Some k \<longrightarrow>
                 alo + k \<le> Suc i0 \<and> blo + k \<le> Suc j)"
    by (rule inner_loop_bounds[OF Suc.prems(1) Suc.prems(2) lt Suc.prems(3)]) simp
  then have w: "match_in (alo, ahi, blo, bhi) best'"
    and n: "\<forall>j k. new j = Some k \<longrightarrow> alo + k \<le> Suc i0 \<and> blo + k \<le> Suc j"
    using il by auto
  have d: "d = ahi - Suc i0" using Suc.hyps(2) by simp
  have "match_in (alo, ahi, blo, bhi) (outer_loop a b blo bhi [Suc i0..<ahi] new best')"
    by (rule Suc.hyps(1)[OF d n _ w]) (use Suc.prems(2) in simp)
  then show ?case using rows il by simp
qed

lemma extend_left_bounds:
  "match_in (alo, ahi, blo, bhi) best \<Longrightarrow> match_in (alo, ahi, blo, bhi) (extend_left a b alo blo best)"
proof (induction a b alo blo best rule: extend_left.induct)
  case (1 a b alo blo besti bestj bestsize)
  show ?case
  proof (cases "alo < besti \<and> blo < bestj \<and> a ! (besti - 1) = b ! (bestj - 1)")
    case True
    have "match_in (alo, ahi, blo, bhi) (besti - 1, bestj - 1, bestsize + 1)"
      using True "1.prems" by auto
    from "1.IH"[OF True this] show ?thesis
      by (subst extend_left.simps) (simp only: if_P[OF True])
  next
    case False
    then show ?thesis using "1.prems"
      by (subst extend_left.simps) auto
  qed
qed

lemma extend_right_bounds:
  "match_in (alo, ahi, blo, bhi) best \<Longrightarrow> match_in (alo, ahi, blo, bhi) (extend_right a b ahi bhi best)"
proof (induction a b ahi bhi best rule: extend_right.induct)
  case (1 a b ahi bhi besti bestj bestsize)
  show ?case
  proof (cases "besti + bestsize < ahi \<and> bestj + bestsize < bhi \<and>
         a ! (besti + bestsize) = b ! (bestj + bestsize)")
    case True
    have "match_in (alo, ahi, blo, bhi) (besti, bestj, bestsize + 1)"
      using True "1.prems" by auto
    from "1.IH"[OF True this] show ?thesis
      by (subst extend_right.simps) (simp only: if_P[OF True])
  next
    case False
    then show ?thesis using "1.prems"
      by (subst extend_right.simps) auto
  qed
qed

lemma find_longest_match_within:
  assumes "alo \<le> ahi" "blo \<le> bhi"
  shows "match_in (alo, ahi, blo, bhi) (find_longest_match a b alo ahi blo bhi)"
proof -
  have "match_in (alo, ahi, blo, bhi) (alo, blo, 0)" using assms by simp
  then have "match_in (alo, ahi, blo, bhi) (outer_loop a b blo bhi [alo..<ahi] Map.empty (alo, blo, 0))"
    by (intro outer_loop_bounds) auto
  then show ?thesis
    unfolding find_longest_match_def by (intro extend_right_bounds extend_left_bounds)
qed

lemma matches_snoc: "matches (blocks @ [(i, j, k)]) = matches blocks + k"
  by (simp add: matches_def)

lemma queue_measure_snoc: "queue_measure (q @ [r]) = queue_measure q + rect_weight r"
  by (simp add: queue_measure_def)

lemma matching_loop_total:
  assumes "\<forall>r \<in> set queue. rect_ok r"
  shows "\<exists>blocks. matching_loop a b queue acc = Some blocks \<and>
           matches blocks \<le> matches acc + sum_list (map rect_cap queue)"
  using assms
proof (induction queue arbitrary: acc rule: measure_induct_rule[where f = queue_measure])
  case (less queue)
  show ?case
  proof (cases "queue = []")
    case True
    then show ?thesis by (subst matching_loop.simps) simp
  next
    case ne: False
    define q1 where "q1 = butlast queue"
    obtain alo ahi blo bhi where r: "last queue = (alo, ahi, blo, bhi)"
      by (cases "last queue") auto
    have q: "queue = q1 @ [(alo, ahi, blo, bhi)]"
      using ne r append_butlast_last_id[of queue] by (simp add: q1_def)
    have qm: "queue_measure queue = queue_measure q1 + (2 * (ahi - alo) + 1)"
      unfolding q by (simp add: queue_measure_snoc)
    have caps: "sum_list (map rect_cap queue) = sum_list (map rect_cap q1) + min (ahi - alo) (bhi - blo)"
      unfolding q by simp
    have "rect_ok (alo, ahi, blo, bhi)" using less.prems q by auto
    then have ok: "alo \<le> ahi" "blo \<le> bhi" by simp_all
    have ok1: "\<forall>r \<in> set q1. rect_ok r"
      using less.prems q by auto
    obtain i j k where f: "find_longest_match a b alo ahi blo bhi = (i, j, k)"
      by (cases "find_longest_match a b alo ahi blo bhi") auto
    have "match_in (alo, ahi, blo, bhi) (i, j, k)"
      using find_longest_match_within[OF ok, of a b] f by simp
    then have w: "alo \<le> i" "i + k \<le> ahi" "blo \<le> j" "j + k \<le> bhi" by simp_all
    show ?thesis
    proof (cases "k = 0")
      case True
      have step: "matching_loop a b queue acc = matching_loop a b q1 acc"
        using ne r f True by (subst matching_loop.simps) (simp add: q1_def)
      have "queue_measure q1 < queue_measure queue"
        unfolding qm by simp
      from less.IH[OF this ok1, of acc] obtain blocks where
        b: "matching_loop a b q1 acc = Some blocks"
        "matches blocks \<le> matches acc + sum_list (map rect_cap q1)" by blast
      have "matches blocks \<le> matches acc + sum_list (map rect_cap queue)"
        using b(2) unfolding caps by simp
      then show ?thesis using step b(1) by simp
    next
      case k0: False
      define q2 where "q2 = (if alo < i \<and> blo < j then q1 @ [(alo, i, blo, j)] else q1)"
      define q3 where "q3 = (if i + k < ahi \<and> j + k < bhi then q2 @ [(i + k, ahi, j + k, bhi)] else q2)"
      have step: "matching_loop a b queue acc = matching_loop a b q3 (acc @ [(i, j, k)])"
        using ne r f k0 by (subst matching_loop.simps) (simp add: q1_def q2_def q3_def Let_def)
      have ok2: "\<forall>r \<in> set q2. rect_ok r"
        using ok1 w by (simp add: q2_def)
      have ok3: "\<forall>r \<in> set q3. rect_ok r"
        using ok2 w by (simp add: q3_def)
      have m2: "queue_measure q2 \<le> queue_measure q1 + (2 * (i - alo) + 1)"
        by (simp add: q2_def queue_measure_snoc)
      have m3: "queue_measure q3 \<le> queue_measure q2 + (2 * (ahi - (i + k)) + 1)"
        by (simp add: q3_def queue_measure_snoc)
      have "queue_measure q3 < queue_measure queue"
        using m2 m3 w k0 unfolding qm by arith
      from less.IH[OF this ok3, of "acc @ [(i, j, k)]"] obtain blocks where
        b: "matching_loop a b q3 (acc @ [(i, j, k)]) = Some blocks"
        "matches blocks \<le> matches (acc @ [(i, j, k)]) + sum_list (map rect_cap q3)" by blast
      have c2: "sum_list (map rect_cap q2) \<le> sum_list (map rect_cap q1) + min (i - alo) (j - blo)"
        by (simp add: q2_def)
      have c3: "sum_list (map rect_cap q3) \<le> sum_list (map rect_cap q2) + min (ahi - (i + k)) (bhi - (j + k))"
        by (simp add: q3_def)
      have "min (i - alo) (j - blo) + min (ahi - (i + k)) (bhi - (j + k)) + k \<le> min (ahi - alo) (bhi - blo)"
        using w by arith
      then have "matches blocks \<le> matches acc + sum_list (map rect_cap queue)"
        using b(2) c2 c3 unfolding caps matches_snoc by arith
      then show ?thesis using step b(1) by simp
    qed
  qed
qed

lemma ratio_total_range:
  "\<exists>r. SequenceMatcher_ratio_opt a b = Some r \<and> 0 \<le> r \<and> r \<le> 1"
proof -
  have "\<forall>r \<in> set [(0, length a, 0, length b)]. rect_ok r" by simp
  from matching_loop_total[OF this, of a b "[]"] obtain blocks where
    b: "matching_loop a b [(0, length a, 0, length b)] [] = Some blocks"
    and m: "matches blocks \<le> min (length a) (length b)"
    by (auto simp: matches_def)
  have "2 * matches blocks \<le> length a + length b" using m by simp
  then have "(2::rat) * of_nat (matches blocks) \<le> of_nat (length a + length b)"
    by (metis of_nat_le_iff of_nat_mult of_nat_numeral)
  then have "calculate_ratio (matches blocks) (length a + length b) \<le> 1"
    by (simp add: calculate_ratio_def divide_le_eq)
  moreover have "0 \<le> calculate_ratio (matches blocks) (length a + length b)"
    by (simp add: calculate_ratio_def)
  ultimately show ?thesis using b by (simp add: SequenceMatcher_ratio_opt_def)
qed

subsection \<open>The ratio of a string with itself\<close>

lemma inner_loop_map:
  "\<forall>j \<in> set js. j < bhi \<Longrightarrow>
   fst (inner_loop m i 0 bhi js new best) =
     (\<lambda>x. if x \<in> set js then Some (j2len_get m x + 1) else new x)"
proof (induction js arbitrary: new best)
  case Nil
  show ?case by simp
next
  case (Cons j js)
  have j: "j < bhi" and rest: "\<forall>j \<in> set js. j < bhi" using Cons.prems by auto
  let ?k = "j2len_get m j + 1"
  let ?best' = "if snd (snd best) < ?k then (i + 1 - ?k, j + 1 - ?k, ?k) else best"
  have eq: "inner_loop m i 0 bhi (j # js) new best = inner_loop m i 0 bhi js (new(j \<mapsto> ?k)) ?best'"
    using j by (simp add: Let_def)
  show ?case unfolding eq Cons.IH[OF rest] by (rule ext) auto
qed

lemma inner_loop_keep:
  "\<forall>j \<in> set js. j < bhi \<and> j2len_get m j + 1 \<le> snd (snd best) \<Longrightarrow>
   snd (inner_loop m i 0 bhi js new best) = best"
proof (induction js arbitrary: new)
  case Nil
  show ?case by simp
next
  case (Cons j js)
  have j: "j < bhi" "j2len_get m j + 1 \<le> snd (snd best)"
    and rest: "\<forall>j \<in> set js. j < bhi \<and> j2len_get m j + 1 \<le> snd (snd best)"
    using Cons.prems by auto
  have eq: "inner_loop m i 0 bhi (j # js) new best =
      inner_loop m i 0 bhi js (new(j \<mapsto> j2len_get m j + 1)) best"
    using j by (simp add: Let_def)
  show ?case unfolding eq by (rule Cons.IH[OF rest])
qed

lemma inner_loop_append:
  "\<forall>j \<in> set js1. j < bhi \<Longrightarrow>
   inner_loop m i 0 bhi (js1 @ js2) new best =
     inner_loop m i 0 bhi js2 (fst (inner_loop m i 0 bhi js1 new best))
       (snd (inner_loop m i 0 bhi js1 new best))"
proof (induction js1 arbitrary: new best)
  case Nil
  show ?case by simp
next
  case (Cons j js)
  have j: "j < bhi" and rest: "\<forall>j \<in> set js. j < bhi" using Cons.prems by auto
  let ?k = "j2len_get m j + 1"
  let ?best' = "if snd (snd best) < ?k then (i + 1 - ?k, j + 1 - ?k, ?k) else best"
  have eq1: "inner_loop m i 0 bhi (j # js) new best = inner_loop m i 0 bhi js (new(j \<mapsto> ?k)) ?best'"
    using j by (simp add: Let_def)
  have eq2: "inner_loop m i 0 bhi ((j # js) @ js2) new best =
      inner_loop m i 0 bhi (js @ js2) (new(j \<mapsto> ?k)) ?best'"
    using j by (simp add: Let_def)
  show ?case unfolding eq1 eq2 by (rule Cons.IH[OF rest])
qed

lemma b2j_split:
  assumes "i < length s" "\<not> popular s (s ! i)"
  shows "b2j s (s ! i) =
           filter (\<lambda>j. s ! j = s ! i) [0..<i] @ [i] @ filter (\<lambda>j. s ! j = s ! i) [Suc i..<length s]"
proof -
  have "[0..<length s] = [0..<i] @ [i] @ [Suc i..<length s]"
    using assms(1) by (metis append_Cons append_Nil le_add_diff_inverse less_imp_le_nat upt_add_eq_append upt_conv_Cons zero_le)
  then show ?thesis using assms(2) by (simp add: b2j_def)
qed

lemma run_length_pos: "\<not> popular s (s ! i) \<Longrightarrow> 1 \<le> run_length s i"
  by (cases i) auto

lemma run_length_popular: "popular s (s ! i) \<Longrightarrow> run_length s i = 0"
  by (cases i) auto

lemma run_length_le: "run_length s i \<le> Suc i"
  by (induction i) auto

lemma row_ready_0: "row_ready s 0 Map.empty"
  unfolding row_ready_def
proof (intro conjI allI impI)
  fix j assume h: "j < length s \<and> s ! j = s ! 0 \<and> \<not> popular s (s ! 0)"
  then have "\<not> popular s (s ! j)" by simp
  from run_length_pos[OF this] h
  show "j2len_get Map.empty j + 1 \<le> run_length s 0" "j2len_get Map.empty j + 1 \<le> run_length s j"
    by (simp_all add: j2len_get_def)
next
  assume "\<not> popular s (s ! 0)"
  then show "j2len_get Map.empty 0 + 1 = run_length s 0"
    by (simp add: j2len_get_def)
qed

lemma row_step:
  assumes i: "i < length s" and C: "row_ready s i m" and B: "best_diagonal s i best"
  shows "row_ready s (Suc i) (fst (inner_loop m i 0 (length s) (b2j s (s ! i)) Map.empty best)) \<and>
         best_diagonal s (Suc i) (snd (inner_loop m i 0 (length s) (b2j s (s ! i)) Map.empty best))"
proof -
  let ?n = "length s"
  let ?res = "inner_loop m i 0 ?n (b2j s (s ! i)) Map.empty best"
  obtain bi bj bs where best: "best = (bi, bj, bs)" by (cases best) auto
  have Bd: "bi = bj" "bi + bs \<le> i" "\<forall>i' < i. run_length s i' \<le> bs"
    using B by (auto simp: best_diagonal_def best)
  have inr: "\<forall>j \<in> set (b2j s (s ! i)). j < ?n" by (auto simp: b2j_def)
  have map: "fst ?res = (\<lambda>x. if x \<in> set (b2j s (s ! i)) then Some (j2len_get m x + 1) else None)"
    by (rule inner_loop_map[OF inr])
  have R1: "\<forall>j k. fst ?res j = Some k \<longrightarrow> k \<le> run_length s i \<and> k \<le> run_length s j"
  proof (intro allI impI)
    fix j k assume "fst ?res j = Some k"
    then have jin: "j \<in> set (b2j s (s ! i))" and k: "k = j2len_get m j + 1"
      unfolding map by (auto split: if_splits)
    from jin have "j < ?n \<and> s ! j = s ! i \<and> \<not> popular s (s ! i)"
      by (auto simp: b2j_def split: if_splits)
    then show "k \<le> run_length s i \<and> k \<le> run_length s j"
      using C k by (simp add: row_ready_def)
  qed
  have R2: "fst ?res i = (if run_length s i = 0 then None else Some (run_length s i))"
  proof (cases "popular s (s ! i)")
    case True
    then show ?thesis unfolding map by (simp add: b2j_def run_length_popular)
  next
    case False
    then have "i \<in> set (b2j s (s ! i))" using i by (simp add: b2j_def)
    moreover have "j2len_get m i + 1 = run_length s i" using C False by (simp add: row_ready_def)
    moreover have "run_length s i \<noteq> 0" using run_length_pos[OF False] by simp
    ultimately show ?thesis unfolding map by simp
  qed
  have C': "row_ready s (Suc i) (fst ?res)"
    unfolding row_ready_def
  proof (intro conjI allI impI)
    fix j assume h: "j < ?n \<and> s ! j = s ! Suc i \<and> \<not> popular s (s ! Suc i)"
    then have npj: "\<not> popular s (s ! j)" by simp
    have ri: "run_length s (Suc i) = run_length s i + 1" using h by simp
    show "j2len_get (fst ?res) j + 1 \<le> run_length s (Suc i)"
    proof (cases j)
      case 0
      then show ?thesis using ri by (simp add: j2len_get_def)
    next
      case (Suc j')
      show ?thesis
      proof (cases "fst ?res j'")
        case None
        then show ?thesis using Suc ri by (simp add: j2len_get_def)
      next
        case (Some k)
        then have "k \<le> run_length s i" using R1 by blast
        then show ?thesis using Suc Some ri by (simp add: j2len_get_def)
      qed
    qed
    show "j2len_get (fst ?res) j + 1 \<le> run_length s j"
    proof (cases j)
      case 0
      then show ?thesis using npj by (simp add: j2len_get_def)
    next
      case (Suc j')
      have rj: "run_length s (Suc j') = run_length s j' + 1" using npj Suc by simp
      show ?thesis
      proof (cases "fst ?res j'")
        case None
        then show ?thesis using Suc rj by (simp add: j2len_get_def)
      next
        case (Some k)
        then have "k \<le> run_length s j'" using R1 by blast
        then show ?thesis using Suc Some rj by (simp add: j2len_get_def)
      qed
    qed
  next
    assume np: "\<not> popular s (s ! Suc i)"
    have "j2len_get (fst ?res) (Suc i) = run_length s i"
      using R2 by (simp add: j2len_get_def)
    then show "j2len_get (fst ?res) (Suc i) + 1 = run_length s (Suc i)"
      using np by simp
  qed
  have B': "best_diagonal s (Suc i) (snd ?res)"
  proof (cases "popular s (s ! i)")
    case True
    then have "snd ?res = best" by (simp add: b2j_def)
    moreover have "\<forall>i' < Suc i. run_length s i' \<le> bs"
      using Bd(3) run_length_popular[OF True] by (auto simp: less_Suc_eq)
    ultimately show ?thesis using Bd(1,2) by (simp add: best_diagonal_def best)
  next
    case np: False
    let ?js1 = "filter (\<lambda>j. s ! j = s ! i) [0..<i]"
    let ?js2 = "filter (\<lambda>j. s ! j = s ! i) [Suc i..<?n]"
    have split: "b2j s (s ! i) = ?js1 @ [i] @ ?js2" by (rule b2j_split[OF i np])
    have in1: "\<forall>j \<in> set ?js1. j < ?n" using i by auto
    have keep1: "\<forall>j \<in> set ?js1. j < ?n \<and> j2len_get m j + 1 \<le> snd (snd best)"
    proof
      fix j assume "j \<in> set ?js1"
      then have j: "j < i" "s ! j = s ! i" by auto
      then have "j2len_get m j + 1 \<le> run_length s j"
        using C np i by (simp add: row_ready_def)
      moreover have "run_length s j \<le> bs" using Bd(3) j(1) by simp
      ultimately show "j < ?n \<and> j2len_get m j + 1 \<le> snd (snd best)"
        using j(1) i by (simp add: best)
    qed
    let ?r1 = "inner_loop m i 0 ?n ?js1 Map.empty best"
    have s1: "snd ?r1 = best" by (rule inner_loop_keep[OF keep1])
    let ?k = "j2len_get m i + 1"
    have k: "?k = run_length s i" using C np by (simp add: row_ready_def)
    let ?best' = "if bs < ?k then (i + 1 - ?k, i + 1 - ?k, ?k) else best"
    have step: "?res = inner_loop m i 0 ?n ?js2 ((fst ?r1)(i \<mapsto> ?k)) ?best'"
      unfolding split inner_loop_append[OF in1] s1 using i by (simp add: Let_def best)
    have bs': "snd (snd ?best') = max bs ?k" by (simp add: best)
    have keep2: "\<forall>j \<in> set ?js2. j < ?n \<and> j2len_get m j + 1 \<le> snd (snd ?best')"
    proof
      fix j assume "j \<in> set ?js2"
      then have j: "j < ?n" "s ! j = s ! i" by auto
      then have "j2len_get m j + 1 \<le> run_length s i"
        using C np by (simp add: row_ready_def)
      then show "j < ?n \<and> j2len_get m j + 1 \<le> snd (snd ?best')"
        unfolding bs' using j(1) k by simp
    qed
    have res: "snd ?res = ?best'"
      unfolding step by (rule inner_loop_keep[OF keep2])
    have kle: "?k \<le> Suc i" unfolding k by (rule run_length_le)
    have all: "\<forall>i' < Suc i. run_length s i' \<le> max bs ?k"
      using Bd(3) k by (auto simp: less_Suc_eq)
    show ?thesis
      unfolding res using Bd(1,2) kle all by (auto simp: best_diagonal_def best)
  qed
  show ?thesis using C' B' by simp
qed

lemma outer_loop_diagonal:
  assumes "i0 \<le> length s" "row_ready s i0 m" "best_diagonal s i0 best"
  shows "\<exists>d bs. outer_loop s s 0 (length s) [i0..<length s] m best = (d, d, bs) \<and> d + bs \<le> length s"
  using assms
proof (induction "length s - i0" arbitrary: i0 m best)
  case 0
  then have "i0 = length s" by simp
  then show ?case using "0.prems"(3) by (cases best) (auto simp: best_diagonal_def)
next
  case (Suc d)
  then have lt: "i0 < length s" by simp
  then have rows: "[i0..<length s] = i0 # [Suc i0..<length s]" by (simp add: upt_conv_Cons)
  let ?res = "inner_loop m i0 0 (length s) (b2j s (s ! i0)) Map.empty best"
  from row_step[OF lt Suc.prems(2) Suc.prems(3)]
  have C': "row_ready s (Suc i0) (fst ?res)" and B': "best_diagonal s (Suc i0) (snd ?res)" by simp_all
  have d: "d = length s - Suc i0" using Suc.hyps(2) by simp
  have le: "Suc i0 \<le> length s" using lt by simp
  from Suc.hyps(1)[OF d le C' B'] show ?case
    unfolding rows by (simp add: case_prod_beta)
qed

lemma extend_left_diagonal: "extend_left s s 0 0 (d, d, bs) = (0, 0, bs + d)"
proof (induction d arbitrary: bs)
  case 0
  show ?case by (subst extend_left.simps) simp
next
  case (Suc d)
  have "extend_left s s 0 0 (Suc d, Suc d, bs) = extend_left s s 0 0 (d, d, bs + 1)"
    by (subst extend_left.simps) simp
  then show ?case using Suc[of "bs + 1"] by simp
qed

lemma extend_right_diagonal:
  "m \<le> n \<Longrightarrow> extend_right s s n n (0, 0, m) = (0, 0, n)"
proof (induction "n - m" arbitrary: m)
  case 0
  then have "m = n" by simp
  then show ?case by (subst extend_right.simps) simp
next
  case (Suc d)
  then have lt: "m < n" by simp
  have "extend_right s s n n (0, 0, m) = extend_right s s n n (0, 0, m + 1)"
    using lt by (subst extend_right.simps) simp
  moreover have "extend_right s s n n (0, 0, m + 1) = (0, 0, n)"
    by (rule Suc.hyps(1)) (use Suc.hyps(2) lt in simp_all)
  ultimately show ?case by simp
qed

lemma find_longest_match_self:
  "find_longest_match s s 0 (length s) 0 (length s) = (0, 0, length s)"
proof -
  have "best_diagonal s 0 (0, 0, 0)" by (simp add: best_diagonal_def)
  from outer_loop_diagonal[OF _ row_ready_0 this] obtain d bs where
    o: "outer_loop s s 0 (length s) [0..<length s] Map.empty (0, 0, 0) = (d, d, bs)"
    and le: "d + bs \<le> length s" by auto
  have le': "bs + d \<le> length s" using le by simp
  show ?thesis
    unfolding find_longest_match_def o extend_left_diagonal
    by (rule extend_right_diagonal[OF le'])
qed

lemma ratio_self: "SequenceMatcher_ratio_opt s s = Some 1"
proof (cases "length s = 0")
  case True
  have "matching_loop s s [(0, length s, 0, length s)] [] = matching_loop s s [] []"
    using find_longest_match_self[of s] True by (subst matching_loop.simps) simp
  also have "\<dots> = Some []" by (subst matching_loop.simps) simp
  finally show ?thesis using True
    by (simp add: SequenceMatcher_ratio_opt_def calculate_ratio_def matches_def)
next
  case False
  have "matching_loop s s [(0, length s, 0, length s)] [] = matching_loop s s [] [(0, 0, length s)]"
    using find_longest_match_self[of s] False by (subst matching_loop.simps) simp
  also have "\<dots> = Some [(0, 0, length s)]" by (subst matching_loop.simps) simp
  finally show ?thesis using False
    by (simp add: SequenceMatcher_ratio_opt_def calculate_ratio_def matches_def)
qed


section \<open>Properties of the deduplication\<close>

subsection \<open>The primary of a group\<close>

lemma foldl_max_step_mem: "foldl (max_step k) x xs \<in> set (x # xs)"
  by (induction xs arbitrary: x) (auto simp: max_step_def)

lemma key_gt_trans: "key_gt a b \<Longrightarrow> key_gt b c \<Longrightarrow> key_gt a c"
  by (cases a; cases b; cases c) (auto split: if_splits)

lemma key_gt_irrefl: "\<not> key_gt a a"
  by (cases a) auto

lemma key_gt_total: "\<not> key_gt a b \<Longrightarrow> \<not> key_gt b a \<Longrightarrow> a = b"
  by (cases a; cases b) (auto split: if_splits)

lemma not_key_gt_trans: "\<not> key_gt a b \<Longrightarrow> \<not> key_gt b c \<Longrightarrow> \<not> key_gt a c"
  by (cases a; cases b; cases c) (auto split: if_splits)

lemma foldl_max_step_ge_init: "\<not> key_gt (k x) (k (foldl (max_step k) x xs))"
proof (induction xs arbitrary: x)
  case Nil show ?case by (simp add: key_gt_irrefl)
next
  case (Cons y ys)
  show ?case
  proof (cases "key_gt (k y) (k x)")
    case True
    have "\<not> key_gt (k y) (k (foldl (max_step k) y ys))" by (rule Cons.IH)
    moreover have "\<not> key_gt (k x) (k y)" using True
      by (cases "k x"; cases "k y") (auto split: if_splits)
    ultimately have "\<not> key_gt (k x) (k (foldl (max_step k) y ys))"
      by (rule not_key_gt_trans[rotated])
    moreover have "max_step k x y = y" using True by (simp add: max_step_def)
    ultimately show ?thesis by simp
  next
    case False
    then have "max_step k x y = x" by (simp add: max_step_def)
    then show ?thesis using Cons.IH[of x] by simp
  qed
qed

lemma foldl_max_step_ge: "y \<in> set (x # xs) \<Longrightarrow> \<not> key_gt (k y) (k (foldl (max_step k) x xs))"
proof (induction xs arbitrary: x)
  case Nil then show ?case by (simp add: key_gt_irrefl)
next
  case (Cons z zs)
  show ?case
  proof (cases "y = x")
    case True then show ?thesis using foldl_max_step_ge_init[of k x "z # zs"] by simp
  next
    case False
    then have "y \<in> set (max_step k x z # zs) \<or> (y = z \<and> max_step k x z = x)"
      using Cons.prems by (cases "key_gt (k z) (k x)") (auto simp: max_step_def)
    then show ?thesis
    proof
      assume "y \<in> set (max_step k x z # zs)"
      from Cons.IH[OF this] show ?thesis by simp
    next
      assume h: "y = z \<and> max_step k x z = x"
      have "\<not> key_gt (k z) (k x)"
      proof
        assume "key_gt (k z) (k x)"
        then have "max_step k x z = z" by (simp add: max_step_def)
        with h have "z = x" by simp
        with \<open>key_gt (k z) (k x)\<close> show False by (simp add: key_gt_irrefl)
      qed
      moreover have "\<not> key_gt (k x) (k (foldl (max_step k) x zs))" by (rule foldl_max_step_ge_init)
      ultimately have "\<not> key_gt (k z) (k (foldl (max_step k) x zs))" by (rule not_key_gt_trans)
      then show ?thesis using h by simp
    qed
  qed
qed

lemma primary_props:
  assumes "articles g \<noteq> []"
  shows "\<exists>p. primary g = Inr p \<and> p \<in> set (articles g) \<and>
          (\<forall>a \<in> set (articles g). \<not> key_gt (primary_key a) (primary_key p))"
proof -
  from assms obtain x xs where e: "articles g = x # xs" by (cases "articles g") auto
  show ?thesis unfolding primary_def e
    using foldl_max_step_mem[of primary_key x xs] foldl_max_step_ge[of _ x xs primary_key]
    by auto
qed


text \<open>
  C3. For a non-empty group, \<open>primary\<close> returns a member whose excerpt is at least as long
  as every member's, and whose date is not later than that of any member with an excerpt of
  the same length. For excerpts of 5, 40 and 40 characters, the 40-character members dated
  2026-02-15 and 2026-02-14, the primary is the member of 2026-02-14.
\<close>

theorem primary_longest_then_earliest:
  "(articles g \<noteq> [] \<longrightarrow>
     (\<exists>p. primary g = Inr p \<and> p \<in> set (articles g) \<and>
        (\<forall>a \<in> set (articles g). length (snippet (article a)) \<le> length (snippet (article p))) \<and>
        (\<forall>a \<in> set (articles g). length (snippet (article a)) = length (snippet (article p)) \<longrightarrow>
            date (article p) \<le> date (article a)))) \<and>
   primary (ArticleGroup [ex_short, ex_late, ex_early]) = Inr ex_early"
proof (intro conjI impI)
  assume ne: "articles g \<noteq> []"
  from primary_props[OF ne] obtain p where p: "primary g = Inr p" "p \<in> set (articles g)"
    and mx: "\<forall>a \<in> set (articles g). \<not> key_gt (primary_key a) (primary_key p)" by blast
  have "\<forall>a \<in> set (articles g). length (snippet (article a)) \<le> length (snippet (article p))"
    using mx by (auto simp: primary_key_def split: if_splits)
  moreover have "\<forall>a \<in> set (articles g). length (snippet (article a)) = length (snippet (article p)) \<longrightarrow>
            date (article p) \<le> date (article a)"
    using mx by (auto simp: primary_key_def split: if_splits)
  ultimately show "\<exists>p. primary g = Inr p \<and> p \<in> set (articles g) \<and>
        (\<forall>a \<in> set (articles g). length (snippet (article a)) \<le> length (snippet (article p))) \<and>
        (\<forall>a \<in> set (articles g). length (snippet (article a)) = length (snippet (article p)) \<longrightarrow>
            date (article p) \<le> date (article a))"
    using p by blast
next
  show "primary (ArticleGroup [ex_short, ex_late, ex_early]) = Inr ex_early"
    by code_simp
qed

theorem primary_longest_then_earliest_witness:
  "articles (ArticleGroup [ex_short, ex_late, ex_early]) \<noteq> [] \<and>
   primary (ArticleGroup [ex_short, ex_late, ex_early]) = Inr ex_early \<and>
   length (snippet (article ex_short)) = 5 \<and>
   length (snippet (article ex_late)) = 40 \<and>
   length (snippet (article ex_early)) = 40 \<and>
   date (article ex_early) < date (article ex_late)"
proof -
  have ne: "articles (ArticleGroup [ex_short, ex_late, ex_early]) \<noteq> []" by simp
  have l: "length (snippet (article ex_short)) = 5 \<and> length (snippet (article ex_late)) = 40 \<and>
    length (snippet (article ex_early)) = 40 \<and> date (article ex_early) < date (article ex_late)"
    by (simp add: ex_short_def ex_late_def ex_early_def mk_article_def)
  show ?thesis
    using primary_longest_then_earliest [of "ArticleGroup [ex_short, ex_late, ex_early]"] ne l
    by blast
qed

subsection \<open>The similarity test\<close>

lemma ratio_value: "SequenceMatcher_ratio_opt a b = Some r \<Longrightarrow> SequenceMatcher_ratio a b = r"
  by (simp add: SequenceMatcher_ratio_def)

lemma ratio_range: "0 \<le> SequenceMatcher_ratio a b \<and> SequenceMatcher_ratio a b \<le> 1"
  using ratio_total_range[of a b] by (auto simp: SequenceMatcher_ratio_def)

lemma ratio_identical: "SequenceMatcher_ratio s s = 1"
  by (rule ratio_value[OF ratio_self])

lemma lower_char_idem: "lower_char (lower_char c) = lower_char c"
proof -
  let ?n = "of_char c :: nat"
  show ?thesis
  proof (cases "(65 \<le> ?n \<and> ?n \<le> 90) \<or> (192 \<le> ?n \<and> ?n \<le> 222 \<and> ?n \<noteq> 215)")
    case False
    then have "lower_char c = c" unfolding lower_char_def Let_def by (simp only: if_False)
    then show ?thesis by simp
  next
    case True
    then have lt: "?n + 32 < 256" by auto
    have oc: "(of_char (char_of (?n + 32) :: char) :: nat) = ?n + 32"
      using lt by (simp add: of_char_of)
    have l1: "lower_char c = char_of (?n + 32)"
      unfolding lower_char_def Let_def using True by (simp only: if_True)
    have "\<not> ((65 \<le> ?n + 32 \<and> ?n + 32 \<le> 90) \<or> (192 \<le> ?n + 32 \<and> ?n + 32 \<le> 222 \<and> ?n + 32 \<noteq> 215))"
      using True by auto
    then have "lower_char (char_of (?n + 32)) = char_of (?n + 32)"
      unfolding lower_char_def Let_def oc by simp
    then show ?thesis by (simp add: l1)
  qed
qed

lemma lower_idem: "lower (lower s) = lower s"
  by (simp add: lower_def lower_char_idem)

lemma length_lower: "length (lower s) = length s"
  by (simp add: lower_def)

text \<open>
  C4. Two articles are similar exactly when the ratio that \<open>SequenceMatcher\<close> computes
  for their lower-cased titles is at least the deduplicator's threshold, which is 7/10 by
  default. The ratio is always computed, lies between 0 and 1, and is 1 for identical
  strings; so titles that agree up to case are similar for every threshold up to 1. A ratio
  equal to the threshold is similar and groups the two articles, a ratio below it does
  neither. Lower-casing keeps the length, is idempotent and maps the capitals of a headline
  to small letters. The titles \<open>ABCDEFGxyz\<close> and \<open>abcdefg123\<close> have ratio exactly 7/10:
  they are similar at the default threshold and not at 71/100; of the headlines of the
  specification's scenario, the two about the raid have ratio 62/67 and are similar, the
  one about the court has ratio 18/61 with the first and is not.
\<close>

theorem is_similar_iff_ratio_ge_threshold:
  "is_similar SequenceMatcher_ratio dd a1 a2 =
     (threshold dd \<le> SequenceMatcher_ratio (lower (title (article a1))) (lower (title (article a2)))) \<and>
   (\<exists>r. SequenceMatcher_ratio_opt s t = Some r) \<and>
   0 \<le> SequenceMatcher_ratio s t \<and> SequenceMatcher_ratio s t \<le> 1 \<and>
   SequenceMatcher_ratio s s = 1 \<and>
   threshold (create_deduplicator None) = 7 / 10 \<and>
   threshold (create_deduplicator (Some thr)) = thr \<and>
   (SequenceMatcher_ratio (lower (title (article a1))) (lower (title (article a2))) = threshold dd \<longrightarrow>
      is_similar SequenceMatcher_ratio dd a1 a2) \<and>
   (SequenceMatcher_ratio (lower (title (article a1))) (lower (title (article a2))) < threshold dd \<longrightarrow>
      \<not> is_similar SequenceMatcher_ratio dd a1 a2) \<and>
   (lower (title (article a1)) = lower (title (article a2)) \<and> threshold dd \<le> 1 \<longrightarrow>
      is_similar SequenceMatcher_ratio dd a1 a2) \<and>
   (threshold dd \<le> SequenceMatcher_ratio (lower (title (article a2))) (lower (title (article a1))) \<longrightarrow>
      group SequenceMatcher_ratio dd [a1, a2] = Inr [ArticleGroup [a1, a2]]) \<and>
   (SequenceMatcher_ratio (lower (title (article a2))) (lower (title (article a1))) < threshold dd \<longrightarrow>
      group SequenceMatcher_ratio dd [a1, a2] = Inr [ArticleGroup [a1], ArticleGroup [a2]]) \<and>
   length (lower u) = length u \<and>
   lower (lower u) = lower u \<and>
   lower ''Police RAID in Tel-Aviv 2026'' = ''police raid in tel-aviv 2026'' \<and>
   SequenceMatcher_ratio (lower ''ABCDEFGxyz'') (lower ''abcdefg123'') = 7 / 10 \<and>
   is_similar SequenceMatcher_ratio (create_deduplicator None) ex_upper ex_digits \<and>
   \<not> is_similar SequenceMatcher_ratio (create_deduplicator (Some (71 / 100))) ex_upper ex_digits \<and>
   SequenceMatcher_ratio (lower ''Police Raid Brothel in Tel Aviv Area'')
     (lower ''Police Raid Brothel in Tel Aviv'') = 62 / 67 \<and>
   is_similar SequenceMatcher_ratio (create_deduplicator None) ex_raid_b ex_raid_a \<and>
   SequenceMatcher_ratio (lower ''Court Sentences Pimp to Prison'')
     (lower ''Police Raid Brothel in Tel Aviv'') = 18 / 61 \<and>
   \<not> is_similar SequenceMatcher_ratio (create_deduplicator None) ex_court ex_raid_a"
proof -
  have iff: "is_similar SequenceMatcher_ratio dd a1 a2 =
     (threshold dd \<le> SequenceMatcher_ratio (lower (title (article a1))) (lower (title (article a2))))"
    by (simp add: is_similar_def Let_def)
  have tot: "\<exists>r. SequenceMatcher_ratio_opt s t = Some r"
    using ratio_total_range[of s t] by blast
  have lo: "0 \<le> SequenceMatcher_ratio s t" and hi: "SequenceMatcher_ratio s t \<le> 1"
    using ratio_range[of s t] by simp_all
  have idn: "SequenceMatcher_ratio s s = 1" by (rule ratio_identical)
  have dflt: "threshold (create_deduplicator None) = 7 / 10"
    by (simp add: create_deduplicator_def)
  have given: "threshold (create_deduplicator (Some thr)) = thr"
    by (simp add: create_deduplicator_def)
  have eq: "SequenceMatcher_ratio (lower (title (article a1))) (lower (title (article a2))) = threshold dd \<longrightarrow>
      is_similar SequenceMatcher_ratio dd a1 a2"
    by (simp add: iff)
  have lt: "SequenceMatcher_ratio (lower (title (article a1))) (lower (title (article a2))) < threshold dd \<longrightarrow>
      \<not> is_similar SequenceMatcher_ratio dd a1 a2"
    by (simp add: iff)
  have same: "lower (title (article a1)) = lower (title (article a2)) \<and> threshold dd \<le> 1 \<longrightarrow>
      is_similar SequenceMatcher_ratio dd a1 a2"
    by (simp add: iff ratio_identical)
  have p1: "primary (ArticleGroup [a1]) = Inr a1"
    by (simp add: primary_def)
  have together: "threshold dd \<le> SequenceMatcher_ratio (lower (title (article a2))) (lower (title (article a1))) \<longrightarrow>
      group SequenceMatcher_ratio dd [a1, a2] = Inr [ArticleGroup [a1, a2]]"
    by (simp add: group_def group_step_def new_group_def add_def p1 is_similar_def Let_def)
  have apart: "SequenceMatcher_ratio (lower (title (article a2))) (lower (title (article a1))) < threshold dd \<longrightarrow>
      group SequenceMatcher_ratio dd [a1, a2] = Inr [ArticleGroup [a1], ArticleGroup [a2]]"
    by (simp add: group_def group_step_def new_group_def add_def p1 is_similar_def Let_def)
  have len: "length (lower u) = length u" by (rule length_lower)
  have idem: "lower (lower u) = lower u" by (rule lower_idem)
  have low: "lower ''Police RAID in Tel-Aviv 2026'' = ''police raid in tel-aviv 2026''"
    by code_simp
  have r1: "SequenceMatcher_ratio (lower ''ABCDEFGxyz'') (lower ''abcdefg123'') = 7 / 10"
    by code_simp
  have s1: "is_similar SequenceMatcher_ratio (create_deduplicator None) ex_upper ex_digits"
    by code_simp
  have s2: "\<not> is_similar SequenceMatcher_ratio (create_deduplicator (Some (71 / 100))) ex_upper ex_digits"
    by code_simp
  have r2: "SequenceMatcher_ratio (lower ''Police Raid Brothel in Tel Aviv Area'')
     (lower ''Police Raid Brothel in Tel Aviv'') = 62 / 67"
    by code_simp
  have s3: "is_similar SequenceMatcher_ratio (create_deduplicator None) ex_raid_b ex_raid_a"
    by code_simp
  have r3: "SequenceMatcher_ratio (lower ''Court Sentences Pimp to Prison'')
     (lower ''Police Raid Brothel in Tel Aviv'') = 18 / 61"
    by code_simp
  have s4: "\<not> is_similar SequenceMatcher_ratio (create_deduplicator None) ex_court ex_raid_a"
    by code_simp
  show ?thesis
    by (intro conjI)
       (rule iff tot lo hi idn dflt given eq lt same together apart len idem low r1 s1 s2 r2 s3 r3 s4)+
qed

theorem is_similar_iff_ratio_ge_threshold_witness:
  "SequenceMatcher_ratio (lower (title (article ex_upper))) (lower (title (article ex_digits))) =
     threshold (create_deduplicator None) \<and>
   is_similar SequenceMatcher_ratio (create_deduplicator None) ex_upper ex_digits \<and>
   SequenceMatcher_ratio (lower (title (article ex_upper))) (lower (title (article ex_digits))) <
     threshold (create_deduplicator (Some (71 / 100))) \<and>
   \<not> is_similar SequenceMatcher_ratio (create_deduplicator (Some (71 / 100))) ex_upper ex_digits \<and>
   lower (title (article ex_late)) = lower (title (article ex_copy)) \<and>
   threshold (create_deduplicator None) \<le> 1 \<and>
   is_similar SequenceMatcher_ratio (create_deduplicator None) ex_late ex_copy \<and>
   threshold (create_deduplicator None) \<le>
     SequenceMatcher_ratio (lower (title (article ex_digits))) (lower (title (article ex_upper))) \<and>
   group SequenceMatcher_ratio (create_deduplicator None) [ex_upper, ex_digits] =
     Inr [ArticleGroup [ex_upper, ex_digits]] \<and>
   SequenceMatcher_ratio (lower (title (article ex_digits))) (lower (title (article ex_upper))) <
     threshold (create_deduplicator (Some (71 / 100))) \<and>
   group SequenceMatcher_ratio (create_deduplicator (Some (71 / 100))) [ex_upper, ex_digits] =
     Inr [ArticleGroup [ex_upper], ArticleGroup [ex_digits]]"
proof -
  let ?d = "create_deduplicator None"
  let ?e = "create_deduplicator (Some (71 / 100))"
  note T = is_similar_iff_ratio_ge_threshold
  have eq: "SequenceMatcher_ratio (lower (title (article ex_upper))) (lower (title (article ex_digits))) =
     threshold ?d"
    by code_simp
  have lt: "SequenceMatcher_ratio (lower (title (article ex_upper))) (lower (title (article ex_digits))) <
     threshold ?e"
    by code_simp
  have same: "lower (title (article ex_late)) = lower (title (article ex_copy))"
    by code_simp
  have le: "threshold ?d \<le> 1"
    by (simp add: create_deduplicator_def)
  have ge2: "threshold ?d \<le>
     SequenceMatcher_ratio (lower (title (article ex_digits))) (lower (title (article ex_upper)))"
    by code_simp
  have lt2: "SequenceMatcher_ratio (lower (title (article ex_digits))) (lower (title (article ex_upper))) <
     threshold ?e"
    by code_simp
  have A: "is_similar SequenceMatcher_ratio ?d ex_upper ex_digits"
    using T [of ?d ex_upper ex_digits, THEN conjunct2, THEN conjunct2, THEN conjunct2,
             THEN conjunct2, THEN conjunct2, THEN conjunct2, THEN conjunct2, THEN conjunct1] eq
    by (rule mp)
  have B: "\<not> is_similar SequenceMatcher_ratio ?e ex_upper ex_digits"
    using T [of ?e ex_upper ex_digits, THEN conjunct2, THEN conjunct2, THEN conjunct2,
             THEN conjunct2, THEN conjunct2, THEN conjunct2, THEN conjunct2, THEN conjunct2,
             THEN conjunct1] lt
    by (rule mp)
  have C: "is_similar SequenceMatcher_ratio ?d ex_late ex_copy"
    using T [of ?d ex_late ex_copy, THEN conjunct2, THEN conjunct2, THEN conjunct2,
             THEN conjunct2, THEN conjunct2, THEN conjunct2, THEN conjunct2, THEN conjunct2,
             THEN conjunct2, THEN conjunct1] same le
    by (rule mp[OF _ conjI])
  have D: "group SequenceMatcher_ratio ?d [ex_upper, ex_digits] = Inr [ArticleGroup [ex_upper, ex_digits]]"
    using T [of ?d ex_upper ex_digits, THEN conjunct2, THEN conjunct2, THEN conjunct2,
             THEN conjunct2, THEN conjunct2, THEN conjunct2, THEN conjunct2, THEN conjunct2,
             THEN conjunct2, THEN conjunct2, THEN conjunct1] ge2
    by (rule mp)
  have E: "group SequenceMatcher_ratio ?e [ex_upper, ex_digits] =
     Inr [ArticleGroup [ex_upper], ArticleGroup [ex_digits]]"
    using T [of ?e ex_upper ex_digits, THEN conjunct2, THEN conjunct2, THEN conjunct2,
             THEN conjunct2, THEN conjunct2, THEN conjunct2, THEN conjunct2, THEN conjunct2,
             THEN conjunct2, THEN conjunct2, THEN conjunct2, THEN conjunct1] lt2
    by (rule mp)
  show ?thesis
    by (intro conjI) (rule eq A lt B same le C ge2 D lt2 E)+
qed

subsection \<open>The grouping pass\<close>

lemma primary_total: "articles g \<noteq> [] \<Longrightarrow> \<exists>p. primary g = Inr p"
  using primary_props by blast

lemma fmg_not_error:
  "\<forall>g \<in> set gs. articles g \<noteq> [] \<Longrightarrow> \<exists>r. find_matching_group ratio dd a gs = Inr r"
proof (induction gs)
  case Nil show ?case by simp
next
  case (Cons g gs)
  then obtain p where p: "primary g = Inr p" using primary_total[of g] by auto
  from Cons obtain r where "find_matching_group ratio dd a gs = Inr r" by auto
  then show ?case using p by (simp split: option.splits)
qed

lemma fmg_None:
  "\<forall>g \<in> set gs. articles g \<noteq> [] \<Longrightarrow>
   (find_matching_group ratio dd a gs = Inr None) = (\<forall>g \<in> set gs. \<not> similar_to_primary ratio dd a g)"
proof (induction gs)
  case Nil show ?case by simp
next
  case (Cons g gs)
  then obtain p where p: "primary g = Inr p" using primary_total[of g] by auto
  from Cons have IH: "(find_matching_group ratio dd a gs = Inr None) = (\<forall>g \<in> set gs. \<not> similar_to_primary ratio dd a g)"
    by simp
  from Cons obtain r where r: "find_matching_group ratio dd a gs = Inr r"
    using fmg_not_error[of gs ratio dd a] by auto
  show ?case using p IH r
    by (cases r) (auto simp: similar_to_primary_def)
qed

lemma fmg_Some:
  "\<forall>g \<in> set gs. articles g \<noteq> [] \<Longrightarrow>
   (find_matching_group ratio dd a gs = Inr (Some i)) =
   (i < length gs \<and> similar_to_primary ratio dd a (gs ! i) \<and>
    (\<forall>j < i. \<not> similar_to_primary ratio dd a (gs ! j)))"
proof (induction gs arbitrary: i)
  case Nil show ?case by simp
next
  case (Cons g gs)
  then obtain p where p: "primary g = Inr p" using primary_total[of g] by auto
  from Cons have IH: "\<And>i. (find_matching_group ratio dd a gs = Inr (Some i)) =
   (i < length gs \<and> similar_to_primary ratio dd a (gs ! i) \<and>
    (\<forall>j < i. \<not> similar_to_primary ratio dd a (gs ! j)))" by simp
  from Cons obtain r where r: "find_matching_group ratio dd a gs = Inr r"
    using fmg_not_error[of gs ratio dd a] by auto
  show ?case
  proof (cases "is_similar ratio dd a p")
    case True
    then have s0: "similar_to_primary ratio dd a g" using p by (simp add: similar_to_primary_def)
    have "find_matching_group ratio dd a (g # gs) = Inr (Some 0)" using p True by simp
    moreover have "(i < length (g # gs) \<and> similar_to_primary ratio dd a ((g # gs) ! i) \<and>
       (\<forall>j < i. \<not> similar_to_primary ratio dd a ((g # gs) ! j))) = (i = 0)"
      using s0 by (cases i) auto
    ultimately show ?thesis by auto
  next
    case False
    then have s0: "\<not> similar_to_primary ratio dd a g" using p by (simp add: similar_to_primary_def)
    show ?thesis
    proof (cases i)
      case 0
      then show ?thesis using p False s0 r by (simp split: option.splits)
    next
      case (Suc k)
      have "(find_matching_group ratio dd a (g # gs) = Inr (Some (Suc k))) =
            (find_matching_group ratio dd a gs = Inr (Some k))"
        using p False r by (simp split: option.splits)
      also have "\<dots> = (k < length gs \<and> similar_to_primary ratio dd a (gs ! k) \<and>
          (\<forall>j < k. \<not> similar_to_primary ratio dd a (gs ! j)))" by (rule IH)
      also have "\<dots> = (Suc k < length (g # gs) \<and> similar_to_primary ratio dd a ((g # gs) ! Suc k) \<and>
          (\<forall>j < Suc k. \<not> similar_to_primary ratio dd a ((g # gs) ! j)))"
        using s0 by (auto simp: less_Suc_eq_0_disj)
      finally show ?thesis using Suc by simp
    qed
  qed
qed

lemma group_step_props:
  assumes ne: "\<forall>g \<in> set gs. articles g \<noteq> []"
  shows "\<exists>gs'. group_step ratio dd gs a = Inr gs' \<and> (\<forall>g \<in> set gs'. articles g \<noteq> [])"
proof -
  obtain r where r: "find_matching_group ratio dd a gs = Inr r"
    using fmg_not_error[OF ne] by blast
  show ?thesis
  proof (cases r)
    case None
    then show ?thesis using r ne by (simp add: group_step_def new_group_def)
  next
    case (Some i)
    have "\<forall>g \<in> set (gs[i := add (gs ! i) a]). articles g \<noteq> []"
      using ne by (auto simp: add_def dest!: set_update_subset_insert[THEN subsetD])
    then show ?thesis using r Some by (simp add: group_step_def)
  qed
qed

lemma group_loop_snoc:
  "group_loop ratio dd gs (xs @ [a]) =
     (case group_loop ratio dd gs xs of Inl e \<Rightarrow> Inl e | Inr gs' \<Rightarrow> group_step ratio dd gs' a)"
  by (induction xs arbitrary: gs) (auto split: sum.splits)

lemma group_loop_nonempty:
  "\<forall>g \<in> set gs. articles g \<noteq> [] \<Longrightarrow>
   \<exists>gs'. group_loop ratio dd gs xs = Inr gs' \<and> (\<forall>g \<in> set gs'. articles g \<noteq> [])"
proof (induction xs arbitrary: gs)
  case Nil then show ?case by simp
next
  case (Cons x xs)
  from group_step_props[OF Cons.prems, of ratio dd x] obtain gs1
    where s: "group_step ratio dd gs x = Inr gs1" and ne1: "\<forall>g \<in> set gs1. articles g \<noteq> []" by blast
  from Cons.IH[OF ne1] show ?case using s by simp
qed

lemma group_eq_loop: "group ratio dd xs = group_loop ratio dd [] xs"
  by (simp add: group_def)

lemma group_total: "\<exists>gs. group ratio dd xs = Inr gs \<and> (\<forall>g \<in> set gs. articles g \<noteq> [])"
  using group_loop_nonempty[of "[]" ratio dd xs] by (simp add: group_eq_loop)

text \<open>
  C5. \<open>group\<close> is one left-to-right pass. The empty input gives the empty output and a
  single article gives one singleton group, without error. After any input \<open>xs\<close> the
  groups \<open>gs\<close> exist, and a further article \<open>a\<close> is appended to the group of least index
  whose current primary is similar to \<open>a\<close>, the other groups unchanged; when no group's
  primary is similar, \<open>a\<close> opens a new singleton group at the end.
\<close>

theorem group_single_pass:
  "group ratio dd [] = Inr [] \<and>
   group ratio dd [a] = Inr [new_group a] \<and>
   (\<exists>gs. group ratio dd xs = Inr gs \<and>
      (\<forall>i. i < length gs \<and> similar_to_primary ratio dd a (gs ! i) \<and>
            (\<forall>j < i. \<not> similar_to_primary ratio dd a (gs ! j)) \<longrightarrow>
            group ratio dd (xs @ [a]) = Inr (gs[i := add (gs ! i) a])) \<and>
      ((\<forall>j < length gs. \<not> similar_to_primary ratio dd a (gs ! j)) \<longrightarrow>
            group ratio dd (xs @ [a]) = Inr (gs @ [new_group a])))"
proof (intro conjI)
  show "group ratio dd [] = Inr []" by (simp add: group_def)
  show "group ratio dd [a] = Inr [new_group a]" by (simp add: group_def group_step_def)
  obtain gs where gs: "group ratio dd xs = Inr gs" and ne: "\<forall>g \<in> set gs. articles g \<noteq> []"
    using group_total by blast
  have snoc: "group ratio dd (xs @ [a]) = group_step ratio dd gs a"
    using gs by (simp add: group_eq_loop group_loop_snoc)
  have A: "\<forall>i. i < length gs \<and> similar_to_primary ratio dd a (gs ! i) \<and>
            (\<forall>j < i. \<not> similar_to_primary ratio dd a (gs ! j)) \<longrightarrow>
            group ratio dd (xs @ [a]) = Inr (gs[i := add (gs ! i) a])"
  proof (intro allI impI)
    fix i
    assume "i < length gs \<and> similar_to_primary ratio dd a (gs ! i) \<and>
            (\<forall>j < i. \<not> similar_to_primary ratio dd a (gs ! j))"
    then have "find_matching_group ratio dd a gs = Inr (Some i)"
      using fmg_Some[OF ne, of ratio dd a i] by simp
    then show "group ratio dd (xs @ [a]) = Inr (gs[i := add (gs ! i) a])"
      by (simp add: snoc group_step_def)
  qed
  have B: "(\<forall>j < length gs. \<not> similar_to_primary ratio dd a (gs ! j)) \<longrightarrow>
            group ratio dd (xs @ [a]) = Inr (gs @ [new_group a])"
  proof
    assume "\<forall>j < length gs. \<not> similar_to_primary ratio dd a (gs ! j)"
    then have "\<forall>g \<in> set gs. \<not> similar_to_primary ratio dd a g"
      by (metis in_set_conv_nth)
    then have "find_matching_group ratio dd a gs = Inr None"
      using fmg_None[OF ne, of ratio dd a] by simp
    then show "group ratio dd (xs @ [a]) = Inr (gs @ [new_group a])"
      by (simp add: snoc group_step_def)
  qed
  show "\<exists>gs. group ratio dd xs = Inr gs \<and>
      (\<forall>i. i < length gs \<and> similar_to_primary ratio dd a (gs ! i) \<and>
            (\<forall>j < i. \<not> similar_to_primary ratio dd a (gs ! j)) \<longrightarrow>
            group ratio dd (xs @ [a]) = Inr (gs[i := add (gs ! i) a])) \<and>
      ((\<forall>j < length gs. \<not> similar_to_primary ratio dd a (gs ! j)) \<longrightarrow>
            group ratio dd (xs @ [a]) = Inr (gs @ [new_group a]))"
    using gs A B by blast
qed

theorem group_single_pass_witness:
  "group exact_ratio (create_deduplicator None) [ex_short, ex_late] =
     Inr [ArticleGroup [ex_short], ArticleGroup [ex_late]] \<and>
   \<not> similar_to_primary exact_ratio (create_deduplicator None) ex_copy (ArticleGroup [ex_short]) \<and>
   similar_to_primary exact_ratio (create_deduplicator None) ex_copy (ArticleGroup [ex_late]) \<and>
   group exact_ratio (create_deduplicator None) ([ex_short, ex_late] @ [ex_copy]) =
     Inr [ArticleGroup [ex_short], ArticleGroup [ex_late, ex_copy]] \<and>
   \<not> similar_to_primary exact_ratio (create_deduplicator None) ex_early (ArticleGroup [ex_short]) \<and>
   \<not> similar_to_primary exact_ratio (create_deduplicator None) ex_early (ArticleGroup [ex_late]) \<and>
   group exact_ratio (create_deduplicator None) ([ex_short, ex_late] @ [ex_early]) =
     Inr [ArticleGroup [ex_short], ArticleGroup [ex_late], ArticleGroup [ex_early]]"
proof -
  let ?dd = "create_deduplicator None"
  let ?gs = "[ArticleGroup [ex_short], ArticleGroup [ex_late]]"
  have g: "group exact_ratio ?dd [ex_short, ex_late] = Inr ?gs"
    by code_simp
  have n0: "\<not> similar_to_primary exact_ratio ?dd ex_copy (ArticleGroup [ex_short])"
    by code_simp
  have s1: "similar_to_primary exact_ratio ?dd ex_copy (ArticleGroup [ex_late])"
    by code_simp
  have e0: "\<not> similar_to_primary exact_ratio ?dd ex_early (ArticleGroup [ex_short])"
    by code_simp
  have e1: "\<not> similar_to_primary exact_ratio ?dd ex_early (ArticleGroup [ex_late])"
    by code_simp
  have none: "\<forall>j < length ?gs. \<not> similar_to_primary exact_ratio ?dd ex_early (?gs ! j)"
    using e0 e1 by (simp add: less_Suc_eq_0_disj)
  have first: "Suc 0 < length ?gs \<and> similar_to_primary exact_ratio ?dd ex_copy (?gs ! Suc 0) \<and>
      (\<forall>j < Suc 0. \<not> similar_to_primary exact_ratio ?dd ex_copy (?gs ! j))"
    using n0 s1 by simp
  have "\<exists>gs. group exact_ratio ?dd [ex_short, ex_late] = Inr gs \<and>
      (\<forall>i. i < length gs \<and> similar_to_primary exact_ratio ?dd ex_copy (gs ! i) \<and>
            (\<forall>j < i. \<not> similar_to_primary exact_ratio ?dd ex_copy (gs ! j)) \<longrightarrow>
            group exact_ratio ?dd ([ex_short, ex_late] @ [ex_copy]) = Inr (gs[i := add (gs ! i) ex_copy])) \<and>
      ((\<forall>j < length gs. \<not> similar_to_primary exact_ratio ?dd ex_copy (gs ! j)) \<longrightarrow>
            group exact_ratio ?dd ([ex_short, ex_late] @ [ex_copy]) = Inr (gs @ [new_group ex_copy]))"
    by (rule group_single_pass [of exact_ratio ?dd ex_copy "[ex_short, ex_late]",
          THEN conjunct2, THEN conjunct2])
  then obtain gs1 where gs1: "group exact_ratio ?dd [ex_short, ex_late] = Inr gs1"
    and A: "\<forall>i. i < length gs1 \<and> similar_to_primary exact_ratio ?dd ex_copy (gs1 ! i) \<and>
            (\<forall>j < i. \<not> similar_to_primary exact_ratio ?dd ex_copy (gs1 ! j)) \<longrightarrow>
            group exact_ratio ?dd ([ex_short, ex_late] @ [ex_copy]) = Inr (gs1[i := add (gs1 ! i) ex_copy])"
    by (elim exE conjE)
  have eq1: "gs1 = ?gs" using g gs1 by simp
  have c0: "group exact_ratio ?dd ([ex_short, ex_late] @ [ex_copy]) =
     Inr (?gs[Suc 0 := add (?gs ! Suc 0) ex_copy])"
  proof -
    have f1: "Suc 0 < length gs1 \<and> similar_to_primary exact_ratio ?dd ex_copy (gs1 ! Suc 0) \<and>
      (\<forall>j < Suc 0. \<not> similar_to_primary exact_ratio ?dd ex_copy (gs1 ! j))"
      using first unfolding eq1 .
    show ?thesis using A[rule_format, OF f1] unfolding eq1 .
  qed
  have c: "group exact_ratio ?dd ([ex_short, ex_late] @ [ex_copy]) =
     Inr [ArticleGroup [ex_short], ArticleGroup [ex_late, ex_copy]]"
    unfolding c0 by (simp add: add_def)
  have "\<exists>gs. group exact_ratio ?dd [ex_short, ex_late] = Inr gs \<and>
      (\<forall>i. i < length gs \<and> similar_to_primary exact_ratio ?dd ex_early (gs ! i) \<and>
            (\<forall>j < i. \<not> similar_to_primary exact_ratio ?dd ex_early (gs ! j)) \<longrightarrow>
            group exact_ratio ?dd ([ex_short, ex_late] @ [ex_early]) = Inr (gs[i := add (gs ! i) ex_early])) \<and>
      ((\<forall>j < length gs. \<not> similar_to_primary exact_ratio ?dd ex_early (gs ! j)) \<longrightarrow>
            group exact_ratio ?dd ([ex_short, ex_late] @ [ex_early]) = Inr (gs @ [new_group ex_early]))"
    by (rule group_single_pass [of exact_ratio ?dd ex_early "[ex_short, ex_late]",
          THEN conjunct2, THEN conjunct2])
  then obtain gs2 where gs2: "group exact_ratio ?dd [ex_short, ex_late] = Inr gs2"
    and B: "(\<forall>j < length gs2. \<not> similar_to_primary exact_ratio ?dd ex_early (gs2 ! j)) \<longrightarrow>
            group exact_ratio ?dd ([ex_short, ex_late] @ [ex_early]) = Inr (gs2 @ [new_group ex_early])"
    by (elim exE conjE)
  have eq2: "gs2 = ?gs" using g gs2 by simp
  have d0: "group exact_ratio ?dd ([ex_short, ex_late] @ [ex_early]) = Inr (?gs @ [new_group ex_early])"
    using B none unfolding eq2 by (rule mp)
  have d: "group exact_ratio ?dd ([ex_short, ex_late] @ [ex_early]) =
     Inr [ArticleGroup [ex_short], ArticleGroup [ex_late], ArticleGroup [ex_early]]"
    unfolding d0 by (simp add: new_group_def)
  show ?thesis
    by (intro conjI) (rule g n0 s1 c e0 e1 d)+
qed

subsection \<open>Grouping partitions its input\<close>

lemma mset_concat_update:
  "i < length gs \<Longrightarrow>
   mset (concat (map articles (gs[i := add (gs ! i) a]))) = mset (concat (map articles gs)) + {#a#}"
proof (induction gs arbitrary: i)
  case Nil then show ?case by simp
next
  case (Cons g gs)
  show ?case
  proof (cases i)
    case 0 then show ?thesis by (simp add: add_def)
  next
    case (Suc k)
    then have "k < length gs" using Cons.prems by simp
    from Cons.IH[OF this] show ?thesis using Suc by simp
  qed
qed

lemma group_step_inv:
  assumes inv: "grp_inv pre gs"
  shows "\<exists>gs'. group_step ratio dd gs a = Inr gs' \<and> grp_inv (pre @ [a]) gs'"
proof -
  have ne: "\<forall>g \<in> set gs. articles g \<noteq> []" using inv by (simp add: grp_inv_def)
  have sub: "\<forall>g \<in> set gs. subseq (articles g) pre" using inv by (simp add: grp_inv_def)
  have ms: "mset (concat (map articles gs)) = mset pre" using inv by (simp add: grp_inv_def)
  obtain r where r: "find_matching_group ratio dd a gs = Inr r"
    using fmg_not_error[OF ne] by blast
  show ?thesis
  proof (cases r)
    case None
    have "grp_inv (pre @ [a]) (gs @ [new_group a])"
      using ne sub ms by (auto simp: grp_inv_def new_group_def intro: list_emb_prefix)
    then show ?thesis using r None by (simp add: group_step_def)
  next
    case (Some i)
    then have i: "i < length gs" using fmg_Some[OF ne, of ratio dd a i] r by simp
    have "\<forall>g \<in> set (gs[i := add (gs ! i) a]). articles g \<noteq> [] \<and> subseq (articles g) (pre @ [a])"
    proof
      fix g assume "g \<in> set (gs[i := add (gs ! i) a])"
      then have "g = add (gs ! i) a \<or> g \<in> set gs"
        using set_update_subset_insert[of gs i "add (gs ! i) a"] by auto
      then show "articles g \<noteq> [] \<and> subseq (articles g) (pre @ [a])"
      proof
        assume g: "g = add (gs ! i) a"
        have "subseq (articles (gs ! i)) pre" using sub i by simp
        then have "subseq (articles (gs ! i) @ [a]) (pre @ [a])"
          by (simp add: list_emb_append_mono)
        then show ?thesis using g by (simp add: add_def)
      next
        assume "g \<in> set gs"
        then show ?thesis using ne sub by (auto intro: list_emb_prefix)
      qed
    qed
    then have "grp_inv (pre @ [a]) (gs[i := add (gs ! i) a])"
      using mset_concat_update[OF i, of a] ms by (simp add: grp_inv_def)
    then show ?thesis using r Some by (simp add: group_step_def)
  qed
qed

lemma group_loop_inv:
  "grp_inv pre gs \<Longrightarrow> \<exists>gs'. group_loop ratio dd gs xs = Inr gs' \<and> grp_inv (pre @ xs) gs'"
proof (induction xs arbitrary: pre gs)
  case Nil then show ?case by simp
next
  case (Cons x xs)
  from group_step_inv[OF Cons.prems, of ratio dd x] obtain gs1
    where s: "group_step ratio dd gs x = Inr gs1" and inv1: "grp_inv (pre @ [x]) gs1" by blast
  from Cons.IH[OF inv1] show ?case using s by simp
qed

lemma group_inv: "\<exists>gs. group ratio dd xs = Inr gs \<and> grp_inv xs gs"
  using group_loop_inv[of "[]" "[]" ratio dd xs] by (simp add: group_eq_loop grp_inv_def)

lemma subseq_hd_split:
  assumes "subseq ys xs" "ys \<noteq> []"
  shows "\<exists>us vs. xs = us @ hd ys # vs \<and> subseq (tl ys) vs"
proof -
  from assms(2) obtain y ys' where ys: "ys = y # ys'" by (cases ys) auto
  from assms(1)[unfolded ys] obtain us v vs where "xs = us @ v # vs" "y = v" "subseq ys' vs"
    by (auto dest!: list_emb_ConsD)
  then show ?thesis using ys by auto
qed

text \<open>
  C10. \<open>group\<close> always returns, and its groups partition the input: their members together
  are the input as a multiset (so distinct inputs land in exactly one group, once), the sizes
  add up to the input's length, no group is empty, each group lists its members in input
  order, and a group's first member occurs in the input before all its other members.
\<close>

theorem group_partitions_input:
  "\<exists>gs. group ratio dd xs = Inr gs \<and>
     mset (concat (map articles gs)) = mset xs \<and>
     (distinct xs \<longrightarrow> distinct (concat (map articles gs))) \<and>
     sum_list (map (\<lambda>g. length (articles g)) gs) = length xs \<and>
     (\<forall>g \<in> set gs. articles g \<noteq> []) \<and>
     (\<forall>g \<in> set gs. subseq (articles g) xs) \<and>
     (\<forall>g \<in> set gs. \<exists>us vs. xs = us @ hd (articles g) # vs \<and> subseq (tl (articles g)) vs)"
proof -
  obtain gs where gs: "group ratio dd xs = Inr gs" and inv: "grp_inv xs gs"
    using group_inv by blast
  have ms: "mset (concat (map articles gs)) = mset xs" using inv by (simp add: grp_inv_def)
  have ne: "\<forall>g \<in> set gs. articles g \<noteq> []" using inv by (simp add: grp_inv_def)
  have sub: "\<forall>g \<in> set gs. subseq (articles g) xs" using inv by (simp add: grp_inv_def)
  have d: "distinct xs \<longrightarrow> distinct (concat (map articles gs))"
    using ms by (metis mset_eq_imp_distinct_iff)
  have "length (concat (map articles gs)) = length xs"
    using ms by (metis size_mset)
  then have sz: "sum_list (map (\<lambda>g. length (articles g)) gs) = length xs"
    by (simp add: length_concat comp_def)
  have hdp: "\<forall>g \<in> set gs. \<exists>us vs. xs = us @ hd (articles g) # vs \<and> subseq (tl (articles g)) vs"
    using ne sub subseq_hd_split by blast
  show ?thesis using gs ms d sz ne sub hdp by blast
qed

theorem group_partitions_input_witness:
  "group exact_ratio (create_deduplicator None) [ex_short, ex_late, ex_copy] =
     Inr [ArticleGroup [ex_short], ArticleGroup [ex_late, ex_copy]] \<and>
   distinct [ex_short, ex_late, ex_copy] \<and>
   distinct (concat (map articles [ArticleGroup [ex_short], ArticleGroup [ex_late, ex_copy]])) \<and>
   subseq (articles (ArticleGroup [ex_short])) [ex_short, ex_late, ex_copy] \<and>
   subseq (articles (ArticleGroup [ex_late, ex_copy])) [ex_short, ex_late, ex_copy]"
proof -
  let ?dd = "create_deduplicator None"
  let ?xs = "[ex_short, ex_late, ex_copy]"
  let ?gs = "[ArticleGroup [ex_short], ArticleGroup [ex_late, ex_copy]]"
  have g: "group exact_ratio ?dd ?xs = Inr ?gs"
    by code_simp
  have d: "distinct ?xs"
    by code_simp
  from group_partitions_input [of exact_ratio ?dd ?xs]
  obtain gs where gs: "group exact_ratio ?dd ?xs = Inr gs"
    and dd: "distinct ?xs \<longrightarrow> distinct (concat (map articles gs))"
    and ne: "\<forall>g \<in> set gs. articles g \<noteq> []"
    and sub: "\<forall>g \<in> set gs. subseq (articles g) ?xs"
    by (elim exE conjE)
  have eq: "gs = ?gs" using g gs by simp
  have d2: "distinct (concat (map articles ?gs))" using dd d unfolding eq by (rule mp)
  have s1: "subseq (articles (ArticleGroup [ex_short])) ?xs"
    using sub unfolding eq by simp
  have s2: "subseq (articles (ArticleGroup [ex_late, ex_copy])) ?xs"
    using sub unfolding eq by simp
  show ?thesis
    by (intro conjI) (rule g d d2 s1 s2)+
qed


section \<open>Properties of the seen store\<close>

subsection \<open>Filtering\<close>

lemma is_seen_iff: "is_seen st u = (u \<in> seen_urls st)"
  by (simp add: is_seen_def seen_urls_def)

lemma seen_urls_mark_seen_loop:
  "seen_urls (mark_seen_loop ts st urls) = seen_urls st \<union> set urls"
proof (induction urls arbitrary: st)
  case Nil show ?case by simp
next
  case (Cons u urls)
  show ?case
  proof (cases "is_seen st u")
    case True
    then show ?thesis using Cons.IH[of st] by (auto simp: is_seen_iff)
  next
    case False
    have "seen_urls (st\<lparr>seen := seen st @ [(u, ts)]\<rparr>) = insert u (seen_urls st)"
      by (simp add: seen_urls_def)
    then show ?thesis using False Cons.IH[of "st\<lparr>seen := seen st @ [(u, ts)]\<rparr>"] by simp
  qed
qed

lemma seen_urls_mark_seen: "seen_urls (mark_seen ts st urls) = seen_urls st \<union> set urls"
  by (simp add: mark_seen_def seen_urls_mark_seen_loop)

text \<open>
  C6. \<open>filter_unseen\<close> keeps, in their input order and with their repetitions, exactly the
  URLs that are not keys of the ledger. So when the ledger's keys are \<open>S\<close> and the input
  enumerates \<open>S \<union> T\<close>, the result enumerates \<open>T - S\<close>; and after \<open>mark_seen\<close> the URLs
  just marked are filtered out as well.
\<close>

theorem filter_unseen_stable_difference:
  "filter_unseen st urls = filter (\<lambda>u. u \<notin> seen_urls st) urls \<and>
   subseq (filter_unseen st urls) urls \<and>
   set (filter_unseen st urls) = set urls - seen_urls st \<and>
   (seen_urls st = S \<and> set urls = S \<union> T \<longrightarrow> set (filter_unseen st urls) = T - S) \<and>
   filter_unseen (mark_seen ts st marked) urls =
     filter (\<lambda>u. u \<notin> seen_urls st \<and> u \<notin> set marked) urls"
proof (intro conjI impI)
  show a: "filter_unseen st urls = filter (\<lambda>u. u \<notin> seen_urls st) urls"
    by (simp add: filter_unseen_def is_seen_iff)
  show "subseq (filter_unseen st urls) urls"
    by (simp add: filter_unseen_def)
  show b: "set (filter_unseen st urls) = set urls - seen_urls st"
    unfolding a by auto
  show "set (filter_unseen st urls) = T - S" if "seen_urls st = S \<and> set urls = S \<union> T"
    using that unfolding b by auto
  show "filter_unseen (mark_seen ts st marked) urls =
     filter (\<lambda>u. u \<notin> seen_urls st \<and> u \<notin> set marked) urls"
    by (simp add: filter_unseen_def is_seen_iff seen_urls_mark_seen)
qed

theorem filter_unseen_stable_difference_witness:
  "seen_urls (mark_seen ''t1'' \<lparr>seen = []\<rparr> [''a'', ''b'']) = {''a'', ''b''} \<and>
   set [''c'', ''a'', ''d'', ''b'', ''c''] = {''a'', ''b''} \<union> {''b'', ''c'', ''d''} \<and>
   set (filter_unseen (mark_seen ''t1'' \<lparr>seen = []\<rparr> [''a'', ''b'']) [''c'', ''a'', ''d'', ''b'', ''c'']) =
     {''b'', ''c'', ''d''} - {''a'', ''b''} \<and>
   filter_unseen (mark_seen ''t1'' \<lparr>seen = []\<rparr> [''a'', ''b'']) [''c'', ''a'', ''d'', ''b'', ''c''] =
     [''c'', ''d'', ''c'']"
proof -
  let ?st = "mark_seen ''t1'' \<lparr>seen = []\<rparr> [''a'', ''b'']"
  let ?urls = "[''c'', ''a'', ''d'', ''b'', ''c'']"
  have s: "seen_urls ?st = {''a'', ''b''}"
    by (simp add: seen_urls_mark_seen) (simp add: seen_urls_def)
  have u: "set ?urls = {''a'', ''b''} \<union> {''b'', ''c'', ''d''}"
    by auto
  have r: "set (filter_unseen ?st ?urls) = {''b'', ''c'', ''d''} - {''a'', ''b''}"
    using filter_unseen_stable_difference
      [of ?st ?urls "{''a'', ''b''}" "{''b'', ''c'', ''d''}", THEN conjunct2, THEN conjunct2,
       THEN conjunct2, THEN conjunct1] s u
    by (rule mp[OF _ conjI])
  have f: "filter_unseen ?st ?urls = [''c'', ''d'', ''c'']"
    by code_simp
  show ?thesis by (intro conjI) (rule s u r f)+
qed

subsection \<open>Pruning\<close>

lemma length_filter_split:
  "int (length xs) - int (length (filter (\<lambda>e. \<not> P e) xs)) = int (length (filter P xs))"
  using sum_length_filter_compl[of P xs] by simp

lemma kept_filter_eq:
  "filter (\<lambda>(u, ts). parse_timestamp fromiso ts > cutoff) xs =
   filter (\<lambda>e. \<not> at_or_before fromiso cutoff e) xs"
  by (rule filter_cong) (auto simp: at_or_before_def)

lemma float_overflow_pos: "0 < float_overflow"
  by (simp add: float_overflow_def)

text \<open>
  The pruning differs from the specification's wording on the example ledger: with
  \<open>days = 0\<close> nothing is removed although every entry is older than now; with
  \<open>days = 30\<close> the entry first seen exactly 30 days ago is removed although it is not
  older than the cutoff; with \<open>days = 30000\<close> the cutoff is negative and the entry with
  the unparsable timestamp is kept; with \<open>days = 2 ^ 1024\<close> the call raises
  \<open>OverflowError\<close> and removes nothing.
\<close>

theorem prune_older_than_counterexample:
  "prune_older_than ex_fromiso ex_now ex_store 0 \<noteq>
     Inr (prune_as_specified ex_fromiso ex_now ex_store 0) \<and>
   prune_older_than ex_fromiso ex_now ex_store 30 \<noteq>
     Inr (prune_as_specified ex_fromiso ex_now ex_store 30) \<and>
   prune_older_than ex_fromiso ex_now ex_store 30000 \<noteq>
     Inr (prune_as_specified ex_fromiso ex_now ex_store 30000) \<and>
   prune_older_than ex_fromiso ex_now ex_store (2 ^ 1024) = Inl OverflowError \<and>
   prune_older_than ex_fromiso ex_now ex_store (2 ^ 1024) \<noteq>
     Inr (prune_as_specified ex_fromiso ex_now ex_store (2 ^ 1024))"
proof -
  have a: "prune_older_than ex_fromiso ex_now ex_store 0 = Inr (0, ex_store)"
    by (simp add: prune_older_than_def)
  have a': "fst (prune_as_specified ex_fromiso ex_now ex_store 0) = 4"
    by code_simp
  have b: "prune_older_than ex_fromiso ex_now ex_store 30 =
      Inr (3, \<lparr>seen = [(''https://example.com/10'', ''2026-01-31T00:00:00+00:00'')]\<rparr>)"
    by code_simp
  have b': "fst (prune_as_specified ex_fromiso ex_now ex_store 30) = 2"
    by code_simp
  have c: "prune_older_than ex_fromiso ex_now ex_store 30000 = Inr (0, ex_store)"
    by code_simp
  have c': "fst (prune_as_specified ex_fromiso ex_now ex_store 30000) = 1"
    by code_simp
  have d: "prune_older_than ex_fromiso ex_now ex_store (2 ^ 1024) = Inl OverflowError"
    by (simp add: prune_older_than_def float_overflow_def)
  have A: "prune_older_than ex_fromiso ex_now ex_store 0 \<noteq>
     Inr (prune_as_specified ex_fromiso ex_now ex_store 0)"
  proof
    assume "prune_older_than ex_fromiso ex_now ex_store 0 =
      Inr (prune_as_specified ex_fromiso ex_now ex_store 0)"
    then have "(0, ex_store) = prune_as_specified ex_fromiso ex_now ex_store 0"
      unfolding a by simp
    then have "fst (prune_as_specified ex_fromiso ex_now ex_store 0) = 0"
      by (metis fst_conv)
    then show False unfolding a' by simp
  qed
  have B: "prune_older_than ex_fromiso ex_now ex_store 30 \<noteq>
     Inr (prune_as_specified ex_fromiso ex_now ex_store 30)"
  proof
    assume "prune_older_than ex_fromiso ex_now ex_store 30 =
      Inr (prune_as_specified ex_fromiso ex_now ex_store 30)"
    then have "(3, \<lparr>seen = [(''https://example.com/10'', ''2026-01-31T00:00:00+00:00'')]\<rparr>) =
        prune_as_specified ex_fromiso ex_now ex_store 30"
      unfolding b by simp
    then have "fst (prune_as_specified ex_fromiso ex_now ex_store 30) = 3"
      by (metis fst_conv)
    then show False unfolding b' by simp
  qed
  have C: "prune_older_than ex_fromiso ex_now ex_store 30000 \<noteq>
     Inr (prune_as_specified ex_fromiso ex_now ex_store 30000)"
  proof
    assume "prune_older_than ex_fromiso ex_now ex_store 30000 =
      Inr (prune_as_specified ex_fromiso ex_now ex_store 30000)"
    then have "(0, ex_store) = prune_as_specified ex_fromiso ex_now ex_store 30000"
      unfolding c by simp
    then have "fst (prune_as_specified ex_fromiso ex_now ex_store 30000) = 0"
      by (metis fst_conv)
    then show False unfolding c' by simp
  qed
  have D: "prune_older_than ex_fromiso ex_now ex_store (2 ^ 1024) \<noteq>
     Inr (prune_as_specified ex_fromiso ex_now ex_store (2 ^ 1024))"
    unfolding d by simp
  show ?thesis by (intro conjI) (rule A B C d D)+
qed

text \<open>
  C7, as amended. For \<open>days > 0\<close> with \<open>days * 86400\<close> in the range of a float (below
  \<open>2 ** 1024 - 2 ** 970\<close>), \<open>prune_older_than\<close> removes exactly the entries whose parsed
  timestamp is at or before \<open>now - days * 86400\<close> and returns their number; for
  \<open>days \<le> 0\<close> it removes nothing and returns 0; for a larger \<open>days\<close> it raises
  \<open>OverflowError\<close> and removes nothing. A timestamp that \<open>fromisoformat\<close> rejects is read
  as 0 (the epoch) without failure, so its entry is removed exactly when the cutoff is not
  negative.
\<close>

theorem prune_older_than_amended:
  "(0 < days \<and> days * 86400 < float_overflow \<longrightarrow>
      prune_older_than fromiso now st days =
        Inr (int (length (filter (at_or_before fromiso (now - of_int (days * 86400))) (seen st))),
             st\<lparr>seen := filter (\<lambda>e. \<not> at_or_before fromiso (now - of_int (days * 86400)) e) (seen st)\<rparr>)) \<and>
   (days \<le> 0 \<longrightarrow> prune_older_than fromiso now st days = Inr (0, st)) \<and>
   (float_overflow \<le> days * 86400 \<longrightarrow> prune_older_than fromiso now st days = Inl OverflowError) \<and>
   (fromiso ts = None \<longrightarrow>
      at_or_before fromiso (now - of_int (days * 86400)) (u, ts) = (0 \<le> now - of_int (days * 86400)))"
proof (intro conjI impI)
  assume d: "0 < days \<and> days * 86400 < float_overflow"
  show "prune_older_than fromiso now st days =
        Inr (int (length (filter (at_or_before fromiso (now - of_int (days * 86400))) (seen st))),
             st\<lparr>seen := filter (\<lambda>e. \<not> at_or_before fromiso (now - of_int (days * 86400)) e) (seen st)\<rparr>)"
    using d by (simp add: prune_older_than_def Let_def kept_filter_eq length_filter_split)
next
  assume "days \<le> 0"
  then show "prune_older_than fromiso now st days = Inr (0, st)"
    by (simp add: prune_older_than_def)
next
  assume o: "float_overflow \<le> days * 86400"
  have "0 < days * 86400" using o float_overflow_pos by linarith
  then have "0 < days" by (simp add: zero_less_mult_iff)
  then show "prune_older_than fromiso now st days = Inl OverflowError"
    using o by (simp add: prune_older_than_def)
next
  assume "fromiso ts = None"
  then show "at_or_before fromiso (now - of_int (days * 86400)) (u, ts) = (0 \<le> now - of_int (days * 86400))"
    by (simp add: at_or_before_def parse_timestamp_def)
qed

theorem prune_older_than_amended_witness:
  "(0::int) < 30 \<and> 30 * 86400 < float_overflow \<and>
   prune_older_than ex_fromiso ex_now ex_store 30 =
     Inr (3, \<lparr>seen = [(''https://example.com/10'', ''2026-01-31T00:00:00+00:00'')]\<rparr>) \<and>
   (0::int) \<le> 0 \<and>
   prune_older_than ex_fromiso ex_now ex_store 0 = Inr (0, ex_store) \<and>
   float_overflow \<le> 2 ^ 1024 * 86400 \<and>
   prune_older_than ex_fromiso ex_now ex_store (2 ^ 1024) = Inl OverflowError \<and>
   ex_fromiso ''not a timestamp'' = None \<and>
   at_or_before ex_fromiso (ex_now - of_int (30 * 86400)) (''https://example.com/bad'', ''not a timestamp'')"
proof -
  have p: "(0::int) < 30" by simp
  have q: "30 * 86400 < float_overflow" by (simp add: float_overflow_def)
  have z: "(0::int) \<le> 0" by simp
  have o: "float_overflow \<le> 2 ^ 1024 * 86400" by (simp add: float_overflow_def)
  have n: "ex_fromiso ''not a timestamp'' = None" by code_simp
  have f1: "int (length (filter (at_or_before ex_fromiso (ex_now - of_int (30 * 86400))) (seen ex_store))) = 3"
    by code_simp
  have f2: "ex_store\<lparr>seen := filter (\<lambda>e. \<not> at_or_before ex_fromiso (ex_now - of_int (30 * 86400)) e) (seen ex_store)\<rparr> =
      \<lparr>seen = [(''https://example.com/10'', ''2026-01-31T00:00:00+00:00'')]\<rparr>"
    by code_simp
  have c0: "(0::rat) \<le> ex_now - of_int (30 * 86400)" by code_simp
  have A: "prune_older_than ex_fromiso ex_now ex_store 30 =
     Inr (3, \<lparr>seen = [(''https://example.com/10'', ''2026-01-31T00:00:00+00:00'')]\<rparr>)"
    using prune_older_than_amended [of 30 ex_fromiso ex_now ex_store, THEN conjunct1] p q
    unfolding f1 f2 by (rule mp[OF _ conjI])
  have B: "prune_older_than ex_fromiso ex_now ex_store 0 = Inr (0, ex_store)"
    using prune_older_than_amended [of 0 ex_fromiso ex_now ex_store, THEN conjunct2, THEN conjunct1] z
    by (rule mp)
  have O: "prune_older_than ex_fromiso ex_now ex_store (2 ^ 1024) = Inl OverflowError"
    using prune_older_than_amended [of "2 ^ 1024" ex_fromiso ex_now ex_store,
      THEN conjunct2, THEN conjunct2, THEN conjunct1] o
    by (rule mp)
  have C: "at_or_before ex_fromiso (ex_now - of_int (30 * 86400)) (''https://example.com/bad'', ''not a timestamp'')"
    using prune_older_than_amended
      [of 30 ex_fromiso ex_now ex_store "''not a timestamp''" "''https://example.com/bad''",
       THEN conjunct2, THEN conjunct2, THEN conjunct2] n c0
    by simp
  show ?thesis by (intro conjI) (rule p q A z B o O n C)+
qed

subsection \<open>Loading the ledger\<close>

lemma load_tolerated:
  "f \<in> {Missing, Unreadable, NotJson, JsonObject None} \<Longrightarrow>
   load f = Inr \<lparr>seen = []\<rparr> \<and> count \<lparr>seen = []\<rparr> = 0"
  by (auto simp: load_def count_def)

text \<open>
  C8. A missing file, a file that cannot be opened or read, and a file that is not JSON
  load as the empty ledger, whose count is 0. But a backing file that is JSON and not an
  object (for instance the text \<open>[]\<close>), or whose bytes cannot be decoded, makes \<open>_load\<close>
  raise: \<open>AttributeError\<close> and \<open>UnicodeDecodeError\<close> are not among the exceptions it
  catches, and a run of the pipeline on such a file raises the same error.
\<close>

theorem load_raises_on_malformed_ledger:
  "load Missing = Inr \<lparr>seen = []\<rparr> \<and>
   load Unreadable = Inr \<lparr>seen = []\<rparr> \<and>
   load NotJson = Inr \<lparr>seen = []\<rparr> \<and>
   count \<lparr>seen = []\<rparr> = 0 \<and>
   load JsonNonObject = Inl AttributeError \<and>
   load Undecodable = Inl UnicodeDecodeError \<and>
   run_output (run_pipeline_async ex_env ex_config 14 JsonNonObject) = Inl AttributeError \<and>
   run_output (run_pipeline_async ex_env ex_config 14 Undecodable) = Inl UnicodeDecodeError"
proof -
  have ok: "load Missing = Inr \<lparr>seen = []\<rparr> \<and> load Unreadable = Inr \<lparr>seen = []\<rparr> \<and>
    load NotJson = Inr \<lparr>seen = []\<rparr> \<and> count \<lparr>seen = []\<rparr> = 0"
    by (simp add: load_def count_def)
  have bad: "load JsonNonObject = Inl AttributeError \<and> load Undecodable = Inl UnicodeDecodeError"
    by (simp add: load_def)
  have r1: "run_output (run_pipeline_async ex_env ex_config 14 JsonNonObject) = Inl AttributeError"
    by code_simp
  have r2: "run_output (run_pipeline_async ex_env ex_config 14 Undecodable) = Inl UnicodeDecodeError"
    by code_simp
  show ?thesis using ok bad r1 r2 by simp
qed

section \<open>Properties of the classifier's parsing\<close>

lemma parse_data_obj:
  "parse_data (JObj d) =
     Inr \<lparr>relevant = truthy (dict_get d ''relevant'' (JBool False)),
          category = (case Category_of (dict_get d ''category'' (JStr ''not_relevant'')) of
                        Some c \<Rightarrow> c | None \<Rightarrow> NOT_RELEVANT),
          sub_category = (case map_of d ''sub_category'' of
                            None \<Rightarrow> None
                          | Some v \<Rightarrow> if truthy v then SubCategory_of v else None),
          confidence = (case dict_get d ''confidence'' (JStr ''medium'') of
                          JStr s \<Rightarrow> if s \<in> set [''high'', ''medium'', ''low''] then s else ''medium''
                        | _ \<Rightarrow> ''medium'')\<rparr>"
  by (simp add: parse_data_def Let_def)

lemma SubCategory_of_Some_truthy: "SubCategory_of v = Some sc \<Longrightarrow> truthy v"
  by (cases v) (auto simp: SubCategory_of_def split: if_splits)

text \<open>
  A response with category \<open>brothel\<close> and sub-category \<open>rescue\<close> is parsed to a
  classification that carries both, although \<open>rescue\<close> is not a sub-category of
  \<open>brothel\<close>.
\<close>

theorem parse_response_cross_category_counterexample:
  "parse_response ex_json_loads ex_cross_text =
     Inr \<lparr>relevant = True, category = BROTHEL, sub_category = Some RESCUE, confidence = ''high''\<rparr> \<and>
   RESCUE \<notin> set (valid_sub_categories BROTHEL)"
  by code_simp

text \<open>
  C2, as amended. A response that parses to a JSON object never makes \<open>_parse_response\<close>
  raise. Its sub-category is kept whenever the tag is one of the values of \<open>SubCategory\<close>,
  whatever the category of the response, and it is dropped when the tag is no value of
  \<open>SubCategory\<close> (or is absent or empty). A response that is not JSON gives the
  not-relevant, low-confidence default.
\<close>

theorem parse_response_sub_category:
  "(json_loads (unfence txt) = Some (JObj d) \<longrightarrow>
      (\<exists>r. parse_response json_loads txt = Inr r \<and>
           category r = (case Category_of (dict_get d ''category'' (JStr ''not_relevant'')) of
                           Some c \<Rightarrow> c | None \<Rightarrow> NOT_RELEVANT) \<and>
           sub_category r = (case map_of d ''sub_category'' of
                               None \<Rightarrow> None
                             | Some v \<Rightarrow> if truthy v then SubCategory_of v else None))) \<and>
   (json_loads (unfence txt) = Some (JObj d) \<and> map_of d ''sub_category'' = Some v \<and>
    SubCategory_of v = Some sc \<longrightarrow>
      (\<exists>r. parse_response json_loads txt = Inr r \<and> sub_category r = Some sc)) \<and>
   (json_loads (unfence txt) = Some (JObj d) \<and> map_of d ''sub_category'' = Some v \<and>
    SubCategory_of v = None \<longrightarrow>
      (\<exists>r. parse_response json_loads txt = Inr r \<and> sub_category r = None)) \<and>
   (json_loads (unfence txt) = None \<longrightarrow> parse_response json_loads txt = Inr failed_classification)"
proof (intro conjI impI)
  assume "json_loads (unfence txt) = Some (JObj d)"
  then show "\<exists>r. parse_response json_loads txt = Inr r \<and>
           category r = (case Category_of (dict_get d ''category'' (JStr ''not_relevant'')) of
                           Some c \<Rightarrow> c | None \<Rightarrow> NOT_RELEVANT) \<and>
           sub_category r = (case map_of d ''sub_category'' of
                               None \<Rightarrow> None
                             | Some v \<Rightarrow> if truthy v then SubCategory_of v else None)"
    by (simp add: parse_response_def parse_data_obj)
next
  assume h: "json_loads (unfence txt) = Some (JObj d) \<and> map_of d ''sub_category'' = Some v \<and>
    SubCategory_of v = Some sc"
  then have "truthy v" using SubCategory_of_Some_truthy by blast
  then show "\<exists>r. parse_response json_loads txt = Inr r \<and> sub_category r = Some sc"
    using h by (simp add: parse_response_def parse_data_obj)
next
  assume h: "json_loads (unfence txt) = Some (JObj d) \<and> map_of d ''sub_category'' = Some v \<and>
    SubCategory_of v = None"
  then show "\<exists>r. parse_response json_loads txt = Inr r \<and> sub_category r = None"
    by (simp add: parse_response_def parse_data_obj)
next
  assume "json_loads (unfence txt) = None"
  then show "parse_response json_loads txt = Inr failed_classification"
    by (simp add: parse_response_def)
qed

theorem parse_response_sub_category_witness:
  "ex_json_loads (unfence ex_cross_text) = Some (JObj ex_cross_obj) \<and>
   map_of ex_cross_obj ''sub_category'' = Some (JStr ''rescue'') \<and>
   SubCategory_of (JStr ''rescue'') = Some RESCUE \<and>
   (\<exists>r. parse_response ex_json_loads ex_cross_text = Inr r \<and> sub_category r = Some RESCUE) \<and>
   ex_json_loads (unfence ex_unknown_text) = Some (JObj ex_unknown_obj) \<and>
   map_of ex_unknown_obj ''sub_category'' = Some (JStr ''unknown'') \<and>
   SubCategory_of (JStr ''unknown'') = None \<and>
   (\<exists>r. parse_response ex_json_loads ex_unknown_text = Inr r \<and> sub_category r = None) \<and>
   ex_json_loads (unfence ''This is not valid JSON'') = None \<and>
   parse_response ex_json_loads ''This is not valid JSON'' = Inr failed_classification"
proof -
  have a1: "ex_json_loads (unfence ex_cross_text) = Some (JObj ex_cross_obj)" by code_simp
  have a2: "map_of ex_cross_obj ''sub_category'' = Some (JStr ''rescue'')" by code_simp
  have a3: "SubCategory_of (JStr ''rescue'') = Some RESCUE" by code_simp
  have b1: "ex_json_loads (unfence ex_unknown_text) = Some (JObj ex_unknown_obj)" by code_simp
  have b2: "map_of ex_unknown_obj ''sub_category'' = Some (JStr ''unknown'')" by code_simp
  have b3: "SubCategory_of (JStr ''unknown'') = None" by code_simp
  have c1: "ex_json_loads (unfence ''This is not valid JSON'') = None" by code_simp
  have A: "\<exists>r. parse_response ex_json_loads ex_cross_text = Inr r \<and> sub_category r = Some RESCUE"
    using parse_response_sub_category
      [of ex_json_loads ex_cross_text ex_cross_obj "JStr ''rescue''" RESCUE,
       THEN conjunct2, THEN conjunct1] a1 a2 a3
    by (rule mp[OF _ conjI[OF _ conjI]])
  have B: "\<exists>r. parse_response ex_json_loads ex_unknown_text = Inr r \<and> sub_category r = None"
    using parse_response_sub_category
      [of ex_json_loads ex_unknown_text ex_unknown_obj "JStr ''unknown''",
       THEN conjunct2, THEN conjunct2, THEN conjunct1] b1 b2 b3
    by (rule mp[OF _ conjI[OF _ conjI]])
  have C: "parse_response ex_json_loads ''This is not valid JSON'' = Inr failed_classification"
    using parse_response_sub_category
      [of ex_json_loads "''This is not valid JSON''", THEN conjunct2, THEN conjunct2, THEN conjunct2] c1
    by (rule mp)
  show ?thesis by (intro conjI) (rule a1 a2 a3 A b1 b2 b3 B c1 C)+
qed

section \<open>Properties of the pipeline\<close>

subsection \<open>The forms of a run\<close>

lemma run_no_key:
  "\<not> key_present config \<Longrightarrow>
   run_pipeline_async env config days f = \<lparr>run_output = Inr [], store_after = None, file_after = f\<rparr>"
  by (auto simp: run_pipeline_async_def key_present_def)

lemma run_no_sources:
  "create_sources config = [] \<Longrightarrow>
   run_pipeline_async env config days f = \<lparr>run_output = Inr [], store_after = None, file_after = f\<rparr>"
  by (simp add: run_pipeline_async_def Let_def)

lemma run_load_fails:
  "key_present config \<Longrightarrow> create_sources config \<noteq> [] \<Longrightarrow> load f = Inl e \<Longrightarrow>
   run_pipeline_async env config days f = \<lparr>run_output = Inl e, store_after = None, file_after = f\<rparr>"
  by (simp add: run_pipeline_async_def key_present_def Let_def)

lemma run_nothing_fetched:
  "key_present config \<Longrightarrow> create_sources config \<noteq> [] \<Longrightarrow> load f = Inr st \<Longrightarrow>
   fetched env config days = [] \<Longrightarrow>
   run_pipeline_async env config days f = \<lparr>run_output = Inr [], store_after = Some st, file_after = f\<rparr>"
  by (simp add: run_pipeline_async_def key_present_def fetched_def Let_def)

lemma run_all_seen:
  "key_present config \<Longrightarrow> create_sources config \<noteq> [] \<Longrightarrow> load f = Inr st \<Longrightarrow>
   filter_seen (fetched env config days) st = [] \<Longrightarrow>
   run_pipeline_async env config days f = \<lparr>run_output = Inr [], store_after = Some st, file_after = f\<rparr>"
  by (simp add: run_pipeline_async_def key_present_def fetched_def Let_def)

text \<open>
  Every run that finds an unseen article raises \<open>AttributeError\<close> at the read of
  \<open>config.max_articles\<close>, before the classifier is called.
\<close>

lemma run_unseen_raises:
  "key_present config \<Longrightarrow> create_sources config \<noteq> [] \<Longrightarrow> load f = Inr st \<Longrightarrow>
   filter_seen (fetched env config days) st \<noteq> [] \<Longrightarrow>
   run_pipeline_async env config days f =
     \<lparr>run_output = Inl AttributeError, store_after = Some st, file_after = f\<rparr>"
proof -
  assume k: "key_present config" and s: "create_sources config \<noteq> []" and l: "load f = Inr st"
    and u: "filter_seen (fetched env config days) st \<noteq> []"
  have "fetched env config days \<noteq> []"
    using u by (auto simp: filter_seen_def)
  then show ?thesis
    using k s l u
    by (simp add: run_pipeline_async_def key_present_def fetched_def Let_def config_max_articles_def)
qed

lemma run_forms:
  "run_pipeline_async env config days f = \<lparr>run_output = Inr [], store_after = None, file_after = f\<rparr> \<or>
   (\<exists>e. load f = Inl e \<and>
      run_pipeline_async env config days f = \<lparr>run_output = Inl e, store_after = None, file_after = f\<rparr>) \<or>
   (\<exists>st. load f = Inr st \<and>
      run_pipeline_async env config days f = \<lparr>run_output = Inr [], store_after = Some st, file_after = f\<rparr>) \<or>
   (\<exists>st. load f = Inr st \<and>
      run_pipeline_async env config days f =
        \<lparr>run_output = Inl AttributeError, store_after = Some st, file_after = f\<rparr>)"
proof (cases "key_present config \<and> create_sources config \<noteq> []")
  case False
  then show ?thesis using run_no_key run_no_sources by blast
next
  case True
  show ?thesis
  proof (cases "load f")
    case (Inl e)
    then show ?thesis using True run_load_fails by blast
  next
    case (Inr st)
    show ?thesis
    proof (cases "filter_seen (fetched env config days) st = []")
      case True
      then show ?thesis using \<open>key_present config \<and> create_sources config \<noteq> []\<close> Inr run_all_seen by blast
    next
      case False
      then show ?thesis using \<open>key_present config \<and> create_sources config \<noteq> []\<close> Inr run_unseen_raises by blast
    qed
  qed
qed

lemma run_file_unchanged: "file_after (run_pipeline_async env config days f) = f"
  using run_forms[of env config days f] by auto

lemma run_never_items:
  "run_output (run_pipeline_async env config days f) = Inr [] \<or>
   (\<exists>e. run_output (run_pipeline_async env config days f) = Inl e)"
  using run_forms[of env config days f] by auto

lemma run_store_as_loaded:
  "store_after (run_pipeline_async env config days f) = None \<or>
   (\<exists>st. load f = Inr st \<and> store_after (run_pipeline_async env config days f) = Some st)"
  using run_forms[of env config days f] by auto

subsection \<open>The ledger and the commit step\<close>

text \<open>
  C9. A run that stops at the precondition check (no API key, no source), that fetches
  nothing, or that finds every fetched article in the ledger returns the empty list with the
  ledger as loaded and the backing file as it was. But a run whose unseen articles are all
  classified not relevant does not return the empty list: with the example configuration,
  an empty ledger and a classifier that marks nothing relevant, the run raises
  \<open>AttributeError\<close> at the read of \<open>config.max_articles\<close>, before the classifier is
  called. The ledger is untouched by that run as by every run: the backing file at the end
  is the one at the start, and the store in memory is the one loaded.
\<close>

theorem run_raises_where_nothing_is_relevant:
  "run_pipeline_async ex_env (ex_config\<lparr>anthropic_api_key := None\<rparr>) 14 f =
     \<lparr>run_output = Inr [], store_after = None, file_after = f\<rparr> \<and>
   run_pipeline_async ex_env (ex_config\<lparr>config_sources := []\<rparr>) 14 f =
     \<lparr>run_output = Inr [], store_after = None, file_after = f\<rparr> \<and>
   run_pipeline_async ex_env_no_fetch ex_config 14 (JsonObject (Some ex_ledger_after)) =
     \<lparr>run_output = Inr [], store_after = Some \<lparr>seen = ex_ledger_after\<rparr>,
      file_after = JsonObject (Some ex_ledger_after)\<rparr> \<and>
   run_pipeline_async ex_env ex_config 14 (JsonObject (Some ex_ledger_all)) =
     \<lparr>run_output = Inr [], store_after = Some \<lparr>seen = ex_ledger_all\<rparr>,
      file_after = JsonObject (Some ex_ledger_all)\<rparr> \<and>
   filter_seen (fetched ex_env_api_down ex_config 14) \<lparr>seen = []\<rparr> = [ex_raw1, ex_raw2, ex_raw3] \<and>
   classify_articles ex_env_api_down [ex_raw1, ex_raw2, ex_raw3] = Inr [] \<and>
   run_pipeline_async ex_env_api_down ex_config 14 Missing =
     \<lparr>run_output = Inl AttributeError, store_after = Some \<lparr>seen = []\<rparr>, file_after = Missing\<rparr> \<and>
   file_after (run_pipeline_async env config days f) = f \<and>
   (store_after (run_pipeline_async env config days f) = None \<or>
    (\<exists>st. load f = Inr st \<and> store_after (run_pipeline_async env config days f) = Some st))"
proof -
  have nk: "\<not> key_present (ex_config\<lparr>anthropic_api_key := None\<rparr>)"
    by (simp add: key_present_def)
  have ns: "create_sources (ex_config\<lparr>config_sources := []\<rparr>) = []"
    by (simp add: create_sources_def)
  have a: "run_pipeline_async ex_env (ex_config\<lparr>anthropic_api_key := None\<rparr>) 14 f =
     \<lparr>run_output = Inr [], store_after = None, file_after = f\<rparr>"
    by (rule run_no_key[OF nk])
  have b: "run_pipeline_async ex_env (ex_config\<lparr>config_sources := []\<rparr>) 14 f =
     \<lparr>run_output = Inr [], store_after = None, file_after = f\<rparr>"
    by (rule run_no_sources[OF ns])
  have c: "run_pipeline_async ex_env_no_fetch ex_config 14 (JsonObject (Some ex_ledger_after)) =
     \<lparr>run_output = Inr [], store_after = Some \<lparr>seen = ex_ledger_after\<rparr>,
      file_after = JsonObject (Some ex_ledger_after)\<rparr>"
    by code_simp
  have d: "run_pipeline_async ex_env ex_config 14 (JsonObject (Some ex_ledger_all)) =
     \<lparr>run_output = Inr [], store_after = Some \<lparr>seen = ex_ledger_all\<rparr>,
      file_after = JsonObject (Some ex_ledger_all)\<rparr>"
    by code_simp
  have e: "filter_seen (fetched ex_env_api_down ex_config 14) \<lparr>seen = []\<rparr> = [ex_raw1, ex_raw2, ex_raw3]"
    by code_simp
  have g: "classify_articles ex_env_api_down [ex_raw1, ex_raw2, ex_raw3] = Inr []"
    by code_simp
  have h: "run_pipeline_async ex_env_api_down ex_config 14 Missing =
     \<lparr>run_output = Inl AttributeError, store_after = Some \<lparr>seen = []\<rparr>, file_after = Missing\<rparr>"
    by code_simp
  have i: "file_after (run_pipeline_async env config days f) = f"
    by (rule run_file_unchanged)
  have j: "store_after (run_pipeline_async env config days f) = None \<or>
    (\<exists>st. load f = Inr st \<and> store_after (run_pipeline_async env config days f) = Some st)"
    by (rule run_store_as_loaded)
  show ?thesis
    by (intro conjI) (rule a b c d e g h i j)+
qed

subsection \<open>A second run\<close>

text \<open>
  C1. With the example configuration the sources return three articles, two of which the
  classifier marks relevant. The first run on an empty ledger does not return them as
  items: it raises \<open>AttributeError\<close> at the read of \<open>config.max_articles\<close> and commits
  nothing. The second run, on the backing file that the first one left and with the same
  fetch and classification results, meets the same three unseen articles and raises the
  same error instead of returning the empty list. For every input, a run leaves the backing
  file as it found it, so a later run behaves as it would have on the original file; and
  a run never returns an item.
\<close>

theorem second_run_raises_again:
  "fetched ex_env ex_config 14 = [ex_raw1, ex_raw2, ex_raw3] \<and>
   map_sum id (map article) (classify_articles ex_env [ex_raw1, ex_raw2, ex_raw3]) =
     Inr [ex_raw1, ex_raw2] \<and>
   run_pipeline_async ex_env ex_config 14 Missing =
     \<lparr>run_output = Inl AttributeError, store_after = Some \<lparr>seen = []\<rparr>, file_after = Missing\<rparr> \<and>
   fetched ex_env_later ex_config 14 = fetched ex_env ex_config 14 \<and>
   classify_articles ex_env_later [ex_raw1, ex_raw2, ex_raw3] =
     classify_articles ex_env [ex_raw1, ex_raw2, ex_raw3] \<and>
   filter_seen (fetched ex_env_later ex_config 14) \<lparr>seen = []\<rparr> = [ex_raw1, ex_raw2, ex_raw3] \<and>
   run_pipeline_async ex_env_later ex_config 14
       (file_after (run_pipeline_async ex_env ex_config 14 Missing)) =
     \<lparr>run_output = Inl AttributeError, store_after = Some \<lparr>seen = []\<rparr>, file_after = Missing\<rparr> \<and>
   run_pipeline_async env2 config days (file_after (run_pipeline_async env1 config days f)) =
     run_pipeline_async env2 config days f \<and>
   (run_output (run_pipeline_async env1 config days f) = Inr [] \<or>
    (\<exists>e. run_output (run_pipeline_async env1 config days f) = Inl e))"
proof -
  have a: "fetched ex_env ex_config 14 = [ex_raw1, ex_raw2, ex_raw3]"
    by code_simp
  have b: "map_sum id (map article) (classify_articles ex_env [ex_raw1, ex_raw2, ex_raw3]) =
     Inr [ex_raw1, ex_raw2]"
    by code_simp
  have c: "run_pipeline_async ex_env ex_config 14 Missing =
     \<lparr>run_output = Inl AttributeError, store_after = Some \<lparr>seen = []\<rparr>, file_after = Missing\<rparr>"
    by code_simp
  have d: "fetched ex_env_later ex_config 14 = fetched ex_env ex_config 14"
    by code_simp
  have e: "classify_articles ex_env_later [ex_raw1, ex_raw2, ex_raw3] =
     classify_articles ex_env [ex_raw1, ex_raw2, ex_raw3]"
    by code_simp
  have g: "filter_seen (fetched ex_env_later ex_config 14) \<lparr>seen = []\<rparr> = [ex_raw1, ex_raw2, ex_raw3]"
    by code_simp
  have h: "run_pipeline_async ex_env_later ex_config 14
       (file_after (run_pipeline_async ex_env ex_config 14 Missing)) =
     \<lparr>run_output = Inl AttributeError, store_after = Some \<lparr>seen = []\<rparr>, file_after = Missing\<rparr>"
    by code_simp
  have i: "run_pipeline_async env2 config days (file_after (run_pipeline_async env1 config days f)) =
     run_pipeline_async env2 config days f"
    by (simp only: run_file_unchanged)
  have j: "run_output (run_pipeline_async env1 config days f) = Inr [] \<or>
    (\<exists>e. run_output (run_pipeline_async env1 config days f) = Inl e)"
    by (rule run_never_items)
  show ?thesis
    by (intro conjI) (rule a b c d e g h i j)+
qed

end
